theory Spec2Isabelle
  imports Main "HOL-Library.Sublist"
begin

section \<open>Text primitives of the migration script\<close>

text \<open>
  The script \<^verbatim>\<open>fix-supabase-imports.py\<close> works on Python \<^verbatim>\<open>str\<close> values. A text is
  modelled as a \<^typ>\<open>string\<close>, one \<^typ>\<open>char\<close> per code point, which covers the code
  points below 256. Files are opened in text mode, so a line break is the single
  character \<^verbatim>\<open>\n\<close>.
\<close>

definition nl :: char where
  "nl = CHR 0x0A"

definition tab :: char where
  "tab = CHR 0x09"

text \<open>The class \<^verbatim>\<open>\s\<close> of a Python 3 \<^verbatim>\<open>str\<close> pattern, on the code points below 256.\<close>

definition is_space :: "char \<Rightarrow> bool" where
  "is_space c = (let n = (of_char c :: nat) in
     (9 \<le> n \<and> n \<le> 13) \<or> (28 \<le> n \<and> n \<le> 32) \<or> n = 133 \<or> n = 160)"

text \<open>The class \<^verbatim>\<open>\w\<close>: alphanumeric code points and the underscore.\<close>

definition is_word :: "char \<Rightarrow> bool" where
  "is_word c = (let n = (of_char c :: nat) in
     (48 \<le> n \<and> n \<le> 57) \<or> (65 \<le> n \<and> n \<le> 90) \<or> n = 95 \<or> (97 \<le> n \<and> n \<le> 122) \<or>
     n = 170 \<or> n = 178 \<or> n = 179 \<or> n = 181 \<or> n = 185 \<or> n = 186 \<or>
     (188 \<le> n \<and> n \<le> 190) \<or> (192 \<le> n \<and> n \<le> 214) \<or> (216 \<le> n \<and> n \<le> 246) \<or>
     248 \<le> n)"

text \<open>The dot of a pattern compiled without flags: every character but the line break.\<close>

definition not_nl :: "char \<Rightarrow> bool" where
  "not_nl c = (c \<noteq> nl)"

text \<open>The class \<^verbatim>\<open>[^)]\<close>.\<close>

definition not_rparen :: "char \<Rightarrow> bool" where
  "not_rparen c = (c \<noteq> CHR '')'')"

text \<open>\<^verbatim>\<open>sub in s\<close>.\<close>

fun contains :: "string \<Rightarrow> string \<Rightarrow> bool" where
  "contains sub [] = (sub = [])"
| "contains sub (c # cs) = (prefix sub (c # cs) \<or> contains sub cs)"

text \<open>
  \<^verbatim>\<open>s.replace(old, new)\<close>: the occurrences of \<open>old\<close> are found from left to right
  and do not overlap; an empty \<open>old\<close> matches before every character and at the end.
\<close>

function str_replace :: "string \<Rightarrow> string \<Rightarrow> string \<Rightarrow> string" where
  "str_replace old new [] = (if old = [] then new else [])"
| "str_replace old new (c # cs) =
     (if old = [] then new @ c # str_replace old new cs
      else if prefix old (c # cs) then new @ str_replace old new (drop (length old) (c # cs))
      else c # str_replace old new cs)"
  by pat_completeness auto
termination
  by (relation "measure (\<lambda>(old, new, s). length s)") auto

text \<open>\<^verbatim>\<open>s.split('\n')\<close>: never empty, one more field than there are line breaks.\<close>

fun split_nl :: "string \<Rightarrow> string list" where
  "split_nl [] = [[]]"
| "split_nl (c # cs) =
     (let ls = split_nl cs in if c = nl then [] # ls else (c # hd ls) # tl ls)"

section \<open>The regular expressions\<close>

text \<open>
  The fragment of \<^verbatim>\<open>re\<close> the script uses: literal text, a character class,
  greedy and lazy repetition of a class, an optional part and concatenation.
  Groups only capture; the one group the script reads back is the whole pattern.
\<close>

datatype regex =
    Lit string
  | Plus "char \<Rightarrow> bool"
  | Star "char \<Rightarrow> bool"
  | LazyStar "char \<Rightarrow> bool"
  | Opt regex
  | Seq regex regex

text \<open>
  The backtracking matcher: the texts that may remain after the pattern has matched at
  the head of \<open>s\<close>, in the order in which \<^verbatim>\<open>re\<close> tries them. A greedy repetition
  tries the longest run first, a lazy one the shortest.
\<close>

fun star_rests :: "(char \<Rightarrow> bool) \<Rightarrow> string \<Rightarrow> string list" where
  "star_rests P [] = [[]]"
| "star_rests P (c # cs) = (if P c then star_rests P cs @ [c # cs] else [c # cs])"

fun plus_rests :: "(char \<Rightarrow> bool) \<Rightarrow> string \<Rightarrow> string list" where
  "plus_rests P [] = []"
| "plus_rests P (c # cs) = (if P c then star_rests P cs else [])"

fun lazy_rests :: "(char \<Rightarrow> bool) \<Rightarrow> string \<Rightarrow> string list" where
  "lazy_rests P [] = [[]]"
| "lazy_rests P (c # cs) = (c # cs) # (if P c then lazy_rests P cs else [])"

primrec rests :: "regex \<Rightarrow> string \<Rightarrow> string list" where
  "rests (Lit w) s = (if prefix w s then [drop (length w) s] else [])"
| "rests (Plus P) s = plus_rests P s"
| "rests (Star P) s = star_rests P s"
| "rests (LazyStar P) s = lazy_rests P s"
| "rests (Opt r) s = rests r s @ [s]"
| "rests (Seq a b) s = concat (map (rests b) (rests a s))"

text \<open>
  \<^verbatim>\<open>re.search\<close>: the leftmost position at which the pattern matches, with the end of
  the first match the matcher finds there. \<open>i\<close> is the offset of \<open>s\<close> in the text.
\<close>

fun search_from :: "regex \<Rightarrow> nat \<Rightarrow> string \<Rightarrow> (nat \<times> nat) option" where
  "search_from r i [] = (case rests r [] of [] \<Rightarrow> None | t # ts \<Rightarrow> Some (i, i))"
| "search_from r i (c # cs) =
     (case rests r (c # cs) of
        [] \<Rightarrow> search_from r (Suc i) cs
      | t # ts \<Rightarrow> Some (i, i + (length (c # cs) - length t)))"

definition re_search :: "regex \<Rightarrow> string \<Rightarrow> (nat \<times> nat) option" where
  "re_search r s = search_from r 0 s"

text \<open>
  \<^verbatim>\<open>re.sub(pattern, r'\1' + ins, s, count=1)\<close> for a pattern that is one group: the
  first match is replaced by itself followed by \<open>ins\<close>; without a match \<open>s\<close> is returned.
\<close>

definition re_sub_once :: "regex \<Rightarrow> string \<Rightarrow> string \<Rightarrow> string" where
  "re_sub_once r ins s =
     (case re_search r s of
        None \<Rightarrow> s
      | Some (i, j) \<Rightarrow> take i s @ (take (j - i) (drop i s) @ ins) @ drop j s)"

text \<open>\<^verbatim>\<open>(\n\s+)(.*?)(await )?supabase\.\<close>\<close>

definition first_usage_pattern :: regex where
  "first_usage_pattern =
     Seq (Seq (Lit [nl]) (Plus is_space))
       (Seq (LazyStar not_nl) (Seq (Opt (Lit ''await '')) (Lit ''supabase.'')))"

text \<open>\<^verbatim>\<open>(\n\s+try \{\n)\<close>\<close>

definition try_open :: string where
  "try_open = ''try {'' @ [nl]"

definition try_pattern :: regex where
  "try_pattern = Seq (Lit [nl]) (Seq (Plus is_space) (Lit try_open))"

text \<open>\<^verbatim>\<open>(export async function \w+\([^)]*\) \{\n)\<close>\<close>

definition func_pattern :: regex where
  "func_pattern =
     Seq (Lit ''export async function '')
       (Seq (Plus is_word) (Seq (Lit ''('') (Seq (Star not_rparen) (Lit ('') {'' @ [nl])))))"

section \<open>Rewriting one file\<close>

definition legacy_import :: string where
  "legacy_import = ''import { supabase } from '' @ [CHR 0x27] @ ''@/lib/supabase'' @ [CHR 0x27]"

definition user_import :: string where
  "user_import =
     ''import { createClient } from '' @ [CHR 0x27] @ ''@/utils/supabase/server'' @ [CHR 0x27]"

definition service_import :: string where
  "service_import =
     ''import { createServiceRoleClient } from '' @ [CHR 0x27] @
     ''@/utils/supabase/service-role'' @ [CHR 0x27]"

definition user_client :: string where
  "user_client = ''const supabase = await createClient()''"

definition service_client :: string where
  "service_client = ''const supabase = createServiceRoleClient()''"

text \<open>
  The body of the backward loop: the statement \<open>stmt\<close> goes after the first
  \<^verbatim>\<open>try {\<close> line when the text has \<^verbatim>\<open>'  try {'\<close>, and otherwise after the first
  opening line of an exported async function.
\<close>

definition insert_client :: "string \<Rightarrow> string \<Rightarrow> string" where
  "insert_client stmt content =
     (if contains ''  try {'' content
      then re_sub_once try_pattern (''    '' @ stmt @ [nl]) content
      else re_sub_once func_pattern (''  '' @ stmt @ [nl]) content)"

text \<open>
  The loop \<^verbatim>\<open>for i in range(len(lines) - 1, -1, -1)\<close> over the lines before the first
  usage, given last line first: the first line that declares an exported function runs
  the body once and leaves the loop.
\<close>

fun scan_back :: "string list \<Rightarrow> string \<Rightarrow> string \<Rightarrow> string" where
  "scan_back [] stmt content = content"
| "scan_back (l # ls) stmt content =
     (if contains ''export async function'' l \<or> contains ''export function'' l
      then insert_client stmt content
      else scan_back ls stmt content)"

definition add_client :: "string \<Rightarrow> string \<Rightarrow> string" where
  "add_client stmt content =
     (case re_search first_usage_pattern content of
        None \<Rightarrow> content
      | Some (m, e) \<Rightarrow> scan_back (rev (split_nl (take m content))) stmt content)"

text \<open>The two branches on \<^verbatim>\<open>auth_type\<close>; any other value leaves the text alone.\<close>

definition rewrite :: "string \<Rightarrow> string \<Rightarrow> string" where
  "rewrite auth_type content =
     (if auth_type = ''user''
      then add_client user_client (str_replace legacy_import user_import content)
      else if auth_type = ''service''
      then add_client service_client (str_replace legacy_import service_import content)
      else content)"

subsection \<open>The file system and the console\<close>

text \<open>
  A path names nothing, a directory, or a regular text file that the process may read
  and overwrite. \<^verbatim>\<open>os.path.exists\<close> holds for both kinds of node; \<^verbatim>\<open>open\<close> raises
  \<^verbatim>\<open>IsADirectoryError\<close> on a directory. The printed lines are kept as messages.
\<close>

datatype node = Dir | File string

datatype exn = IsADirectoryError string

datatype msg =
    Banner
  | NotFound string
  | AlreadyFixed string
  | Fixed string string
  | CouldNotFix string
  | SummaryFixed nat
  | SummaryFailed nat

record state =
  fs :: "string \<rightharpoonup> node"
  console :: "msg list"

definition print :: "msg \<Rightarrow> state \<Rightarrow> state" where
  "print m st = st\<lparr>console := console st @ [m]\<rparr>"

definition fix_file :: "string \<Rightarrow> string \<Rightarrow> state \<Rightarrow> (exn + bool) \<times> state" where
  "fix_file filepath auth_type st =
     (case fs st filepath of
        None \<Rightarrow> (Inr False, print (NotFound filepath) st)
      | Some Dir \<Rightarrow> (Inl (IsADirectoryError filepath), st)
      | Some (File original_content) \<Rightarrow>
          if \<not> contains legacy_import original_content
          then (Inr True, print (AlreadyFixed filepath) st)
          else
            let content = rewrite auth_type original_content in
            if content \<noteq> original_content
            then (Inr True,
                  print (Fixed filepath auth_type)
                    (st\<lparr>fs := (fs st)(filepath \<mapsto> File content)\<rparr>))
            else (Inr False, print (CouldNotFix filepath) st))"

section \<open>The run over the task list\<close>




section \<open>Auxiliary notions for the proofs\<close>

text \<open>
  Two texts clash when neither is a prefix of the other, that is, when they differ at a
  position both have. A text \<open>w\<close> is apart from \<open>v\<close> when no occurrence of \<open>w\<close> in
  any text can share a character with an embedded copy of \<open>v\<close>.
\<close>

definition clash :: "string \<Rightarrow> string \<Rightarrow> bool" where
  "clash u v = (\<not> prefix u v \<and> \<not> prefix v u)"

definition apart :: "string \<Rightarrow> string \<Rightarrow> bool" where
  "apart w v =
     (list_all (\<lambda>i. clash (drop i v) w) [0..<length v] \<and>
      list_all (\<lambda>k. clash (drop k w) v) [1..<length w])"

text \<open>A text is unbordered when no proper suffix of it is a prefix of it.\<close>

definition unbordered :: "string \<Rightarrow> bool" where
  "unbordered w = list_all (\<lambda>k. clash (drop k w) w) [1..<length w]"

text \<open>The number of positions of \<open>s\<close> at which \<open>w\<close> occurs.\<close>

fun occurrences :: "string \<Rightarrow> string \<Rightarrow> nat" where
  "occurrences w [] = (if w = [] then 1 else 0)"
| "occurrences w (c # cs) = (if prefix w (c # cs) then 1 else 0) + occurrences w cs"

section \<open>Facts about the text primitives\<close>

lemma contains_sublist: "contains w s = sublist w s"
  by (induction s) (auto simp: sublist_Cons_right)

lemma sublist_iff_drop: "sublist w t \<longleftrightarrow> (\<exists>i. prefix w (drop i t))"
  by (metis sublist_altdef' suffix_drop suffix_def append_eq_conv_conj drop_all length_append
        append_take_drop_id)

lemma apart_inside: "apart w v \<Longrightarrow> i < length v \<Longrightarrow> clash (drop i v) w"
  by (auto simp: apart_def list_all_iff)

lemma apart_into: "apart w v \<Longrightarrow> 0 < k \<Longrightarrow> k < length w \<Longrightarrow> clash (drop k w) v"
  by (auto simp: apart_def list_all_iff)

lemma clash_append: "clash u w \<Longrightarrow> \<not> prefix w (u @ t)"
  by (auto simp: clash_def prefix_append)

lemma clash_append2: "clash u v \<Longrightarrow> \<not> prefix u (v @ t)"
  by (auto simp: clash_def prefix_append)

text \<open>
  An occurrence of \<open>w\<close> in a text around an embedded copy of \<open>v\<close>, for \<open>w\<close> apart
  from \<open>v\<close>, lies before the copy or starts after it.
\<close>

lemma apart_occurrence:
  assumes ap: "apart w v" and occ: "prefix w (drop i (pre @ v @ post))"
    and w: "w \<noteq> []"
  shows "(i < length pre \<and> prefix w (drop i pre)) \<or> length pre + length v \<le> i"
proof (cases "i < length pre")
  case True
  let ?u = "drop i pre"
  from occ True have "prefix w (?u @ v @ post)" by simp
  then consider "prefix w ?u" | t where "w = ?u @ t" "prefix t (v @ post)"
    by (auto simp: prefix_append)
  then show ?thesis
  proof cases
    case 1 then show ?thesis using True by simp
  next
    case 2
    show ?thesis
    proof (cases "t = []")
      case True then show ?thesis using 2 \<open>i < length pre\<close> by simp
    next
      case False
      have u: "?u \<noteq> []" using \<open>i < length pre\<close> by simp
      have k: "0 < length ?u" "length ?u < length w" using u False 2(1)
        by (simp, metis length_append length_greater_0_conv less_add_same_cancel1)
      have "t = drop (length ?u) w" using 2(1) by (metis append_eq_conv_conj)
      with apart_into [OF ap k] have "clash t v" by simp
      with 2(2) show ?thesis using clash_append2 by blast
    qed
  qed
next
  case False
  show ?thesis
  proof (cases "i < length pre + length v")
    case True
    then have "drop i (pre @ v @ post) = drop (i - length pre) v @ post" using False by simp
    moreover have "clash (drop (i - length pre) v) w"
      using apart_inside [OF ap] True False by simp
    ultimately show ?thesis using occ clash_append by metis
  next
    case False then show ?thesis by simp
  qed
qed

text \<open>
  The invariant of \<open>str_replace\<close>: when every occurrence of \<open>w\<close> in the text read so
  far and the text still to read lies at an occurrence of \<open>old\<close> to come, the output has
  no occurrence of \<open>w\<close>.
\<close>

lemma replace_kills:
  "old \<noteq> [] \<Longrightarrow> w \<noteq> [] \<Longrightarrow> apart w new \<Longrightarrow>
   (\<And>i. prefix w (drop i (pre @ s)) \<Longrightarrow> length pre \<le> i \<and> prefix old (drop i (pre @ s)))
   \<Longrightarrow> \<not> sublist w (pre @ str_replace old new s)"
proof (induction old new s arbitrary: pre rule: str_replace.induct)
  case (1 old new)
  show ?case
  proof
    assume "sublist w (pre @ str_replace old new [])"
    then have "sublist w pre" using "1.prems"(1) by simp
    then obtain i where i: "prefix w (drop i pre)" using sublist_iff_drop by blast
    with "1.prems"(4) [of i] have "length pre \<le> i" by simp
    with i "1.prems"(2) show False by simp
  qed
next
  case (2 old new c cs)
  note old = "2.prems"(1) and w = "2.prems"(2) and ap = "2.prems"(3) and occs = "2.prems"(4)
  show ?case
  proof (cases "prefix old (c # cs)")
    case True
    define s' where "s' = drop (length old) (c # cs)"
    have s': "c # cs = old @ s'"
      using True unfolding s'_def by (metis append_eq_conv_conj prefix_def)
    have hyp: "length (pre @ new) \<le> i \<and> prefix old (drop i ((pre @ new) @ s'))"
      if occ: "prefix w (drop i ((pre @ new) @ s'))" for i
    proof -
      from occ have "prefix w (drop i (pre @ new @ s'))" by simp
      from apart_occurrence [OF ap this w]
      consider "i < length pre" "prefix w (drop i pre)" | "length pre + length new \<le> i" by blast
      then show ?thesis
      proof cases
        case 1
        then have "prefix w (drop i (pre @ c # cs))" by (simp add: prefix_prefix)
        with occs [of i] 1 show ?thesis by simp
      next
        case 2
        then obtain j where j: "i = length pre + length new + j"
          by (metis le_Suc_ex)
        have e1: "drop i ((pre @ new) @ s') = drop j s'" using j by simp
        have e2: "drop (length pre + length old + j) (pre @ c # cs) = drop j s'"
          unfolding s' by simp
        from occ have "prefix w (drop (length pre + length old + j) (pre @ c # cs))"
          unfolding e1 e2 .
        from occs [OF this] have "prefix old (drop j s')" unfolding e2 by simp
        then show ?thesis unfolding e1 using j by simp
      qed
    qed
    have "\<not> sublist w ((pre @ new) @ str_replace old new s')"
      unfolding s'_def
    proof (rule "2.IH"(2) [OF old True old w ap])
      fix i
      assume "prefix w (drop i ((pre @ new) @ drop (length old) (c # cs)))"
      then show "length (pre @ new) \<le> i \<and>
         prefix old (drop i ((pre @ new) @ drop (length old) (c # cs)))"
        using hyp [of i] unfolding s'_def by blast
    qed
    moreover have "str_replace old new (c # cs) = new @ str_replace old new s'"
      unfolding s'_def using True old by simp
    ultimately show ?thesis by simp
  next
    case False
    have "\<not> sublist w ((pre @ [c]) @ str_replace old new cs)"
    proof (rule "2.IH"(3) [OF old False old w ap])
      fix i
      assume occ: "prefix w (drop i ((pre @ [c]) @ cs))"
      then have occ': "prefix w (drop i (pre @ c # cs))" by simp
      from occs [OF occ'] have a: "length pre \<le> i" "prefix old (drop i (pre @ c # cs))"
        by blast+
      have "i \<noteq> length pre" using a(2) False by auto
      with a show "length (pre @ [c]) \<le> i \<and> prefix old (drop i ((pre @ [c]) @ cs))" by simp
    qed
    moreover have "str_replace old new (c # cs) = c # str_replace old new cs"
      using False old by simp
    ultimately show ?thesis by simp
  qed
qed

lemma replace_removes_old:
  "old \<noteq> [] \<Longrightarrow> apart old new \<Longrightarrow> \<not> sublist old (str_replace old new s)"
  using replace_kills [of old old new "[]" s] by simp

lemma replace_adds_no:
  "old \<noteq> [] \<Longrightarrow> w \<noteq> [] \<Longrightarrow> apart w new \<Longrightarrow> \<not> sublist w s \<Longrightarrow> \<not> sublist w (str_replace old new s)"
  using replace_kills [of old w new "[]" s] by (auto simp: sublist_iff_drop)

lemma replace_puts_new:
  "old \<noteq> [] \<Longrightarrow> sublist old s \<Longrightarrow> sublist new (str_replace old new s)"
proof (induction old new s rule: str_replace.induct)
  case (1 old new) then show ?case by simp
next
  case (2 old new c cs)
  then show ?case by (auto simp: sublist_Cons_right)
qed

lemma replace_absent:
  "old \<noteq> [] \<Longrightarrow> \<not> sublist old s \<Longrightarrow> str_replace old new s = s"
proof (induction old new s rule: str_replace.induct)
  case (1 old new) then show ?case by simp
next
  case (2 old new c cs)
  then show ?case by (auto simp: sublist_Cons_right)
qed

lemma prefix_before_char:
  "c \<notin> set w \<Longrightarrow> prefix w (a @ c # b) \<longleftrightarrow> prefix w a"
  by (auto simp: prefix_append prefix_Cons)

lemma replace_split_at:
  "old \<noteq> [] \<Longrightarrow> c \<notin> set old \<Longrightarrow>
   str_replace old new (a @ c # b) = str_replace old new a @ c # str_replace old new b"
proof (induction old new a rule: str_replace.induct)
  case (1 old new)
  then have "\<not> prefix old (c # b)" by (cases old) auto
  with 1 show ?case by simp
next
  case (2 old new x xs)
  have p: "prefix old ((x # xs) @ c # b) \<longleftrightarrow> prefix old (x # xs)"
    using prefix_before_char [OF "2.prems"(2)] by blast
  show ?case
  proof (cases "prefix old (x # xs)")
    case True
    then have "length old \<le> length (x # xs)" by (rule prefix_length_le)
    then have "length old - length (x # xs) = 0" by simp
    then have "drop (length old) ((x # xs) @ c # b) = drop (length old) (x # xs) @ c # b"
      using drop_append [of "length old" "x # xs" "c # b"] by (simp only: drop_0)
    moreover have "str_replace old new ((x # xs) @ c # b) =
        new @ str_replace old new (drop (length old) ((x # xs) @ c # b))"
      using p True "2.prems"(1) by simp
    moreover have "str_replace old new (x # xs) = new @ str_replace old new (drop (length old) (x # xs))"
      using True "2.prems"(1) by simp
    ultimately show ?thesis using "2.IH"(2) [OF "2.prems"(1) True "2.prems"] by simp
  next
    case False
    then have "str_replace old new ((x # xs) @ c # b) = x # str_replace old new (xs @ c # b)"
      using p "2.prems"(1) by simp
    then show ?thesis using False "2.IH"(3) [OF "2.prems"(1) False "2.prems"] "2.prems"(1) by simp
  qed
qed

section \<open>Facts about the matcher\<close>

lemma search_from_bounds:
  "search_from r i s = Some (p, q) \<Longrightarrow> i \<le> p \<and> p \<le> q \<and> q \<le> i + length s"
proof (induction s arbitrary: i)
  case Nil
  then show ?case by (auto split: list.splits)
next
  case (Cons c cs)
  show ?case
  proof (cases "rests r (c # cs)")
    case Nil
    with Cons.prems have "search_from r (Suc i) cs = Some (p, q)" by simp
    from Cons.IH [OF this] show ?thesis by simp
  next
    case (Cons t ts)
    with Cons.prems show ?thesis by auto
  qed
qed

lemma search_from_None:
  "search_from r i s = None \<longleftrightarrow> (\<forall>k \<le> length s. rests r (drop k s) = [])"
proof (induction s arbitrary: i)
  case Nil
  then show ?case by (auto split: list.splits)
next
  case (Cons c cs)
  show ?case
  proof (cases "rests r (c # cs)")
    case Nil
    have "(\<forall>k \<le> length (c # cs). rests r (drop k (c # cs)) = []) \<longleftrightarrow>
          (\<forall>k \<le> length cs. rests r (drop k cs) = [])"
    proof
      assume a: "\<forall>k \<le> length (c # cs). rests r (drop k (c # cs)) = []"
      show "\<forall>k \<le> length cs. rests r (drop k cs) = []"
      proof (intro allI impI)
        fix k assume "k \<le> length cs"
        with a [rule_format, of "Suc k"] show "rests r (drop k cs) = []" by simp
      qed
    next
      assume a: "\<forall>k \<le> length cs. rests r (drop k cs) = []"
      show "\<forall>k \<le> length (c # cs). rests r (drop k (c # cs)) = []"
      proof (intro allI impI)
        fix k assume k: "k \<le> length (c # cs)"
        show "rests r (drop k (c # cs)) = []"
        proof (cases k)
          case 0 then show ?thesis using Nil by simp
        next
          case (Suc k') then show ?thesis using a k by simp
        qed
      qed
    qed
    with Nil Cons.IH [of "Suc i"] show ?thesis by simp
  next
    case (Cons t ts)
    then have "rests r (drop 0 (c # cs)) \<noteq> []" by simp
    then have "\<not> (\<forall>k \<le> length (c # cs). rests r (drop k (c # cs)) = [])" by blast
    with Cons show ?thesis by simp
  qed
qed

text \<open>The first match: nothing matches further left.\<close>

lemma search_from_Some:
  "search_from r i s = Some (p, q) \<Longrightarrow>
   \<exists>k t ts. p = i + k \<and> k \<le> length s \<and> rests r (drop k s) = t # ts \<and>
      q = p + (length (drop k s) - length t) \<and> (\<forall>k' < k. rests r (drop k' s) = [])"
proof (induction s arbitrary: i)
  case Nil
  then show ?case by (auto split: list.splits)
next
  case (Cons c cs)
  show ?case
  proof (cases "rests r (c # cs)")
    case Nil
    with Cons.prems have "search_from r (Suc i) cs = Some (p, q)" by simp
    from Cons.IH [OF this] obtain k t ts where
      k: "p = Suc i + k" "k \<le> length cs" "rests r (drop k cs) = t # ts"
         "q = p + (length (drop k cs) - length t)" "\<forall>k' < k. rests r (drop k' cs) = []"
      by blast
    have "\<forall>k' < Suc k. rests r (drop k' (c # cs)) = []"
    proof (intro allI impI)
      fix k' assume "k' < Suc k"
      then show "rests r (drop k' (c # cs)) = []"
        using Nil k(5) by (cases k') auto
    qed
    with k show ?thesis
      by (intro exI [of _ "Suc k"] exI [of _ t] exI [of _ ts]) simp
  next
    case (Cons t ts)
    with Cons.prems show ?thesis
      by (intro exI [of _ 0] exI [of _ t] exI [of _ ts]) auto
  qed
qed

lemma re_sub_once_shape:
  "re_sub_once r ins s = s \<or> (\<exists>j \<le> length s. re_sub_once r ins s = take j s @ ins @ drop j s)"
proof (cases "re_search r s")
  case None
  then show ?thesis by (simp add: re_sub_once_def)
next
  case (Some pq)
  obtain p q where pq: "pq = (p, q)" by (cases pq)
  with Some have "search_from r 0 s = Some (p, q)" by (simp add: re_search_def)
  from search_from_bounds [OF this] have b: "p \<le> q" "q \<le> length s" by simp_all
  then have "take p s @ take (q - p) (drop p s) = take q s"
    using take_add [of p "q - p" s] by simp
  then have "re_sub_once r ins s = take q s @ ins @ drop q s"
    using Some pq by (simp add: re_sub_once_def)
  with b show ?thesis by blast
qed

lemma star_rests_iff:
  "t \<in> set (star_rests P s) \<longleftrightarrow> (\<exists>ws. s = ws @ t \<and> (\<forall>c \<in> set ws. P c))"
proof (induction s)
  case Nil
  then show ?case by auto
next
  case (Cons a s)
  show ?case
  proof (cases "P a")
    case True
    show ?thesis
    proof
      assume "t \<in> set (star_rests P (a # s))"
      with True have "t \<in> set (star_rests P s) \<or> t = a # s" by auto
      then show "\<exists>ws. a # s = ws @ t \<and> (\<forall>c \<in> set ws. P c)"
      proof
        assume "t \<in> set (star_rests P s)"
        with Cons.IH obtain ws where "s = ws @ t" "\<forall>c \<in> set ws. P c" by blast
        with True show ?thesis by (intro exI [of _ "a # ws"]) simp
      next
        assume "t = a # s"
        then show ?thesis by (intro exI [of _ "[]"]) simp
      qed
    next
      assume "\<exists>ws. a # s = ws @ t \<and> (\<forall>c \<in> set ws. P c)"
      then obtain ws where ws: "a # s = ws @ t" "\<forall>c \<in> set ws. P c" by blast
      show "t \<in> set (star_rests P (a # s))"
      proof (cases ws)
        case Nil
        with ws have "t = a # s" by simp
        then show ?thesis using True by simp
      next
        case (Cons b ws')
        with ws have "s = ws' @ t" "\<forall>c \<in> set ws'. P c" by simp_all
        with Cons.IH have "t \<in> set (star_rests P s)" by blast
        with True show ?thesis by simp
      qed
    qed
  next
    case False
    show ?thesis
    proof
      assume "t \<in> set (star_rests P (a # s))"
      with False have "t = a # s" by simp
      then show "\<exists>ws. a # s = ws @ t \<and> (\<forall>c \<in> set ws. P c)"
        by (intro exI [of _ "[]"]) simp
    next
      assume "\<exists>ws. a # s = ws @ t \<and> (\<forall>c \<in> set ws. P c)"
      then obtain ws where ws: "a # s = ws @ t" "\<forall>c \<in> set ws. P c" by blast
      have "ws = []"
      proof (cases ws)
        case Nil then show ?thesis .
      next
        case (Cons b ws')
        with ws False show ?thesis by simp
      qed
      with ws have "t = a # s" by simp
      then show "t \<in> set (star_rests P (a # s))" using False by simp
    qed
  qed
qed

lemma lazy_rests_set: "set (lazy_rests P s) = set (star_rests P s)"
  by (induction s) auto

lemma plus_rests_iff:
  "t \<in> set (plus_rests P s) \<longleftrightarrow> (\<exists>ws. s = ws @ t \<and> ws \<noteq> [] \<and> (\<forall>c \<in> set ws. P c))"
proof (cases s)
  case Nil
  then show ?thesis by simp
next
  case (Cons a s')
  show ?thesis
  proof (cases "P a")
    case True
    show ?thesis
    proof
      assume "t \<in> set (plus_rests P s)"
      with Cons True have "t \<in> set (star_rests P s')" by simp
      then obtain ws where "s' = ws @ t" "\<forall>c \<in> set ws. P c" using star_rests_iff by blast
      with Cons True show "\<exists>ws. s = ws @ t \<and> ws \<noteq> [] \<and> (\<forall>c \<in> set ws. P c)"
        by (intro exI [of _ "a # ws"]) simp
    next
      assume "\<exists>ws. s = ws @ t \<and> ws \<noteq> [] \<and> (\<forall>c \<in> set ws. P c)"
      then obtain ws where ws: "s = ws @ t" "ws \<noteq> []" "\<forall>c \<in> set ws. P c" by blast
      then obtain b ws' where "ws = b # ws'" by (cases ws) auto
      with ws Cons have "s' = ws' @ t" "\<forall>c \<in> set ws'. P c" by simp_all
      then have "t \<in> set (star_rests P s')" using star_rests_iff by blast
      with Cons True show "t \<in> set (plus_rests P s)" by simp
    qed
  next
    case False
    have "\<not> (\<exists>ws. s = ws @ t \<and> ws \<noteq> [] \<and> (\<forall>c \<in> set ws. P c))"
    proof
      assume "\<exists>ws. s = ws @ t \<and> ws \<noteq> [] \<and> (\<forall>c \<in> set ws. P c)"
      then obtain ws where ws: "s = ws @ t" "ws \<noteq> []" "\<forall>c \<in> set ws. P c" by blast
      then obtain b ws' where "ws = b # ws'" by (cases ws) auto
      with ws Cons False show False by simp
    qed
    with Cons False show ?thesis by simp
  qed
qed

text \<open>A greedy run before a literal that starts outside the class: one way to match.\<close>

lemma star_then_lit:
  "w \<noteq> [] \<Longrightarrow> \<not> P (hd w) \<Longrightarrow>
   concat (map (rests (Lit w)) (star_rests P s)) = rests (Lit w) (dropWhile P s)"
proof (induction s)
  case Nil
  then show ?case by simp
next
  case (Cons a s)
  show ?case
  proof (cases "P a")
    case True
    have "\<not> prefix w (a # s)"
      using Cons.prems True by (cases w) auto
    with True Cons show ?thesis by simp
  next
    case False
    then show ?thesis by simp
  qed
qed

lemma plus_then_lit:
  "w \<noteq> [] \<Longrightarrow> \<not> P (hd w) \<Longrightarrow>
   rests (Seq (Plus P) (Lit w)) s =
     (if s \<noteq> [] \<and> P (hd s) then rests (Lit w) (dropWhile P s) else [])"
proof (cases s)
  case Nil
  then show ?thesis by simp
next
  case (Cons a s')
  assume "w \<noteq> []" "\<not> P (hd w)"
  then have "concat (map (rests (Lit w)) (star_rests P s')) = rests (Lit w) (dropWhile P s')"
    by (rule star_then_lit)
  with Cons show ?thesis by simp
qed

lemma try_pattern_rests:
  "rests try_pattern s =
     (case s of
        [] \<Rightarrow> []
      | c # s' \<Rightarrow>
          if c = nl \<and> s' \<noteq> [] \<and> is_space (hd s') \<and> prefix try_open (dropWhile is_space s')
          then [drop (length try_open) (dropWhile is_space s')] else [])"
proof -
  have pl: "rests (Seq (Plus is_space) (Lit try_open)) s' =
     (if s' \<noteq> [] \<and> is_space (hd s') then rests (Lit try_open) (dropWhile is_space s') else [])"
    for s'
    by (rule plus_then_lit) (simp_all add: try_open_def is_space_def)
  have "rests try_pattern s =
      concat (map (rests (Seq (Plus is_space) (Lit try_open))) (rests (Lit [nl]) s))"
    unfolding try_pattern_def by (rule rests.simps(6))
  also have "\<dots> = (case s of
        [] \<Rightarrow> []
      | c # s' \<Rightarrow>
          if c = nl \<and> s' \<noteq> [] \<and> is_space (hd s') \<and> prefix try_open (dropWhile is_space s')
          then [drop (length try_open) (dropWhile is_space s')] else [])"
  proof (cases s)
    case Nil
    then show ?thesis by simp
  next
    case (Cons c s')
    show ?thesis
    proof (cases "c = nl")
      case True
      then have "rests (Lit [nl]) s = [s']" using Cons by simp
      then have "concat (map (rests (Seq (Plus is_space) (Lit try_open))) (rests (Lit [nl]) s)) =
          rests (Seq (Plus is_space) (Lit try_open)) s'"
        by (simp del: rests.simps)
      then show ?thesis unfolding pl using Cons True by simp
    next
      case False
      then have "rests (Lit [nl]) s = []" using Cons by simp
      then show ?thesis using Cons False by (simp del: rests.simps)
    qed
  qed
  finally show ?thesis .
qed

text \<open>What a match of the usage pattern at the head of a text looks like.\<close>

lemma seq_rests_iff:
  "t \<in> set (rests (Seq a b) s) \<longleftrightarrow> (\<exists>m \<in> set (rests a s). t \<in> set (rests b m))"
  by auto

lemma lit_rests_iff: "t \<in> set (rests (Lit w) s) \<longleftrightarrow> s = w @ t"
  by (auto simp: prefix_def)

lemma opt_rests_iff: "t \<in> set (rests (Opt r) s) \<longleftrightarrow> t \<in> set (rests r s) \<or> t = s"
  by auto

lemma usage_match_iff:
  "rests first_usage_pattern s \<noteq> [] \<longleftrightarrow>
   (\<exists>ws u t. s = nl # ws @ u @ ''supabase.'' @ t \<and> ws \<noteq> [] \<and> (\<forall>c \<in> set ws. is_space c) \<and>
      nl \<notin> set u)"
proof
  assume "rests first_usage_pattern s \<noteq> []"
  then obtain t where "t \<in> set (rests first_usage_pattern s)"
    by (cases "rests first_usage_pattern s") auto
  then obtain s2 where 12: "s2 \<in> set (rests (Seq (Lit [nl]) (Plus is_space)) s)"
    and r: "t \<in> set (rests (Seq (LazyStar not_nl) (Seq (Opt (Lit ''await '')) (Lit ''supabase.''))) s2)"
    unfolding first_usage_pattern_def using seq_rests_iff by blast
  from 12 obtain s1 where 1: "s1 \<in> set (rests (Lit [nl]) s)"
    and 2: "s2 \<in> set (rests (Plus is_space) s1)"
    using seq_rests_iff by blast
  from r obtain s3 where 3: "s3 \<in> set (rests (LazyStar not_nl) s2)"
    and r': "t \<in> set (rests (Seq (Opt (Lit ''await '')) (Lit ''supabase.'')) s3)"
    using seq_rests_iff by blast
  from r' obtain s4 where 4: "s4 \<in> set (rests (Opt (Lit ''await '')) s3)"
    and 5: "t \<in> set (rests (Lit ''supabase.'') s4)"
    using seq_rests_iff by blast
  from 1 have a: "s = [nl] @ s1" using lit_rests_iff by blast
  from 2 have "s2 \<in> set (plus_rests is_space s1)" by simp
  then obtain ws where b: "s1 = ws @ s2" "ws \<noteq> []" "\<forall>c \<in> set ws. is_space c"
    using plus_rests_iff by blast
  from 3 have "s3 \<in> set (star_rests not_nl s2)" using lazy_rests_set by simp
  then obtain u where c: "s2 = u @ s3" "\<forall>c \<in> set u. not_nl c"
    using star_rests_iff by blast
  from 4 have "s3 = ''await '' @ s4 \<or> s4 = s3"
    using opt_rests_iff lit_rests_iff by blast
  then obtain v where d: "s3 = v @ s4" "nl \<notin> set v"
  proof
    assume "s3 = ''await '' @ s4"
    moreover have "nl \<notin> set ''await ''" by (simp add: nl_def)
    ultimately show ?thesis using that by blast
  next
    assume "s4 = s3"
    then have "s3 = [] @ s4" by simp
    moreover have "nl \<notin> set []" by simp
    ultimately show ?thesis using that by blast
  qed
  from 5 have e: "s4 = ''supabase.'' @ t" using lit_rests_iff by blast
  have "s = nl # ws @ (u @ v) @ ''supabase.'' @ t"
    unfolding a b(1) c(1) d(1) e by simp
  moreover have "nl \<notin> set (u @ v)" using c(2) d(2) by (auto simp: not_nl_def)
  ultimately show "\<exists>ws u t. s = nl # ws @ u @ ''supabase.'' @ t \<and> ws \<noteq> [] \<and>
      (\<forall>c \<in> set ws. is_space c) \<and> nl \<notin> set u"
    using b(2,3) by blast
next
  assume "\<exists>ws u t. s = nl # ws @ u @ ''supabase.'' @ t \<and> ws \<noteq> [] \<and> (\<forall>c \<in> set ws. is_space c) \<and>
      nl \<notin> set u"
  then obtain ws u t where s: "s = nl # ws @ u @ ''supabase.'' @ t" and ws: "ws \<noteq> []"
    "\<forall>c \<in> set ws. is_space c" and u: "nl \<notin> set u" by blast
  define s4 where "s4 = ''supabase.'' @ t"
  have "s = [nl] @ ws @ u @ s4" using s by (simp add: s4_def)
  then have 1: "ws @ u @ s4 \<in> set (rests (Lit [nl]) s)" using lit_rests_iff by blast
  have "u @ s4 \<in> set (plus_rests is_space (ws @ u @ s4))"
    using plus_rests_iff ws by blast
  then have 2: "u @ s4 \<in> set (rests (Plus is_space) (ws @ u @ s4))" by simp
  have "\<forall>c \<in> set u. not_nl c" using u by (auto simp: not_nl_def)
  then have "s4 \<in> set (star_rests not_nl (u @ s4))"
    using star_rests_iff by blast
  then have 3: "s4 \<in> set (rests (LazyStar not_nl) (u @ s4))" using lazy_rests_set by simp
  have 4: "s4 \<in> set (rests (Opt (Lit ''await '')) s4)" using opt_rests_iff by blast
  have 5: "t \<in> set (rests (Lit ''supabase.'') s4)" unfolding s4_def using lit_rests_iff by blast
  have 12: "u @ s4 \<in> set (rests (Seq (Lit [nl]) (Plus is_space)) s)"
    using 1 2 seq_rests_iff by blast
  have 45: "t \<in> set (rests (Seq (Opt (Lit ''await '')) (Lit ''supabase.'')) s4)"
    using 4 5 seq_rests_iff by blast
  have 345: "t \<in> set (rests (Seq (LazyStar not_nl) (Seq (Opt (Lit ''await '')) (Lit ''supabase.''))) (u @ s4))"
    using 3 45 seq_rests_iff by blast
  have "t \<in> set (rests first_usage_pattern s)"
    unfolding first_usage_pattern_def using 12 345 seq_rests_iff by blast
  then show "rests first_usage_pattern s \<noteq> []" by auto
qed


section \<open>Facts about the rewriting\<close>

lemma sublist_insert:
  assumes "apart w v" "w \<noteq> []" "sublist w (a @ v @ b)"
  shows "sublist w a \<or> sublist w b"
proof -
  from assms(3) obtain i where i: "prefix w (drop i (a @ v @ b))"
    using sublist_iff_drop by blast
  from apart_occurrence [OF assms(1) i assms(2)]
  show ?thesis
  proof
    assume "i < length a \<and> prefix w (drop i a)"
    then show ?thesis using sublist_iff_drop by blast
  next
    assume le: "length a + length v \<le> i"
    then have "drop i (a @ v @ b) = drop (i - length a - length v) b" by simp
    with i show ?thesis using sublist_iff_drop by metis
  qed
qed

lemma re_sub_once_keeps_absent:
  assumes "apart w ins" "w \<noteq> []" "\<not> sublist w s"
  shows "\<not> sublist w (re_sub_once r ins s)"
proof -
  from re_sub_once_shape [of r ins s]
  show ?thesis
  proof
    assume "re_sub_once r ins s = s"
    with assms(3) show ?thesis by simp
  next
    assume "\<exists>j \<le> length s. re_sub_once r ins s = take j s @ ins @ drop j s"
    then obtain j where j: "re_sub_once r ins s = take j s @ ins @ drop j s" by blast
    have "\<not> sublist w (take j s)" "\<not> sublist w (drop j s)"
      using assms(3) sublist_take sublist_drop sublist_order.order_trans by blast+
    with sublist_insert [OF assms(1,2)] j show ?thesis by metis
  qed
qed

lemma scan_back_cases:
  "scan_back ls stmt s = s \<or> scan_back ls stmt s = insert_client stmt s"
  by (induction ls) auto

lemma add_client_cases:
  "add_client stmt s = s \<or> add_client stmt s = insert_client stmt s"
  using scan_back_cases by (auto simp: add_client_def split: option.splits)

lemma insert_client_keeps_absent:
  assumes "apart w (''    '' @ stmt @ [nl])" "apart w (''  '' @ stmt @ [nl])" "w \<noteq> []"
    "\<not> sublist w s"
  shows "\<not> sublist w (insert_client stmt s)"
  using assms re_sub_once_keeps_absent unfolding insert_client_def by presburger

lemma add_client_keeps_absent:
  assumes "apart w (''    '' @ stmt @ [nl])" "apart w (''  '' @ stmt @ [nl])" "w \<noteq> []"
    "\<not> sublist w s"
  shows "\<not> sublist w (add_client stmt s)"
  using insert_client_keeps_absent [OF assms] add_client_cases [of stmt s] assms(4) by metis

lemma legacy_nonempty: "legacy_import \<noteq> []"
  by (simp add: legacy_import_def)

lemma legacy_apart_user: "apart legacy_import user_import"
  by code_simp

lemma legacy_apart_service: "apart legacy_import service_import"
  by code_simp

lemma legacy_apart_user_client:
  "apart legacy_import (''    '' @ user_client @ [nl])"
  "apart legacy_import (''  '' @ user_client @ [nl])"
  by code_simp+

lemma legacy_apart_service_client:
  "apart legacy_import (''    '' @ service_client @ [nl])"
  "apart legacy_import (''  '' @ service_client @ [nl])"
  by code_simp+

lemma rewrite_no_legacy:
  assumes "a = ''user'' \<or> a = ''service''"
  shows "\<not> sublist legacy_import (rewrite a c)"
proof -
  have u: "\<not> sublist legacy_import (str_replace legacy_import user_import c)"
    using replace_removes_old [OF legacy_nonempty legacy_apart_user] .
  have s: "\<not> sublist legacy_import (str_replace legacy_import service_import c)"
    using replace_removes_old [OF legacy_nonempty legacy_apart_service] .
  from assms show ?thesis
  proof
    assume "a = ''user''"
    then show ?thesis
      using add_client_keeps_absent [OF legacy_apart_user_client legacy_nonempty u]
      by (simp add: rewrite_def)
  next
    assume "a = ''service''"
    then show ?thesis
      using add_client_keeps_absent [OF legacy_apart_service_client legacy_nonempty s]
      by (simp add: rewrite_def)
  qed
qed

lemma fix_file_rewrites:
  assumes "fs st p = Some (File c)" "contains legacy_import c" "a = ''user'' \<or> a = ''service''"
  shows "fix_file p a st =
     (Inr True, st\<lparr>fs := (fs st)(p \<mapsto> File (rewrite a c)), console := console st @ [Fixed p a]\<rparr>)"
proof -
  have "rewrite a c \<noteq> c"
    using rewrite_no_legacy [OF assms(3), of c] assms(2) by (auto simp: contains_sublist)
  with assms(1,2) show ?thesis by (simp add: fix_file_def print_def)
qed

lemma fix_file_result:
  assumes "fs st p = Some (File c)" "fix_file p a st = (r, st')" "fs st' p \<noteq> fs st p"
  shows "contains legacy_import c \<and> (a = ''user'' \<or> a = ''service'') \<and> r = Inr True \<and>
     st' = st\<lparr>fs := (fs st)(p \<mapsto> File (rewrite a c)), console := console st @ [Fixed p a]\<rparr>"
  using assms
  by (auto simp: fix_file_def print_def Let_def rewrite_def split: if_splits)







section \<open>Counting occurrences\<close>

lemma unbordered_clash: "unbordered w \<Longrightarrow> 0 < k \<Longrightarrow> k < length w \<Longrightarrow> clash (drop k w) w"
  by (auto simp: unbordered_def list_all_iff)

lemma occurrences_pos: "0 < occurrences w s \<longleftrightarrow> sublist w s"
  by (induction s) (auto simp: sublist_Cons_right)

lemma occurrences_skip:
  "(\<And>i. i < length v \<Longrightarrow> \<not> prefix w (drop i v @ t)) \<Longrightarrow> occurrences w (v @ t) = occurrences w t"
proof (induction v)
  case Nil
  then show ?case by simp
next
  case (Cons x v)
  have "\<not> prefix w (drop 0 (x # v) @ t)" by (rule Cons.prems) simp
  then have 0: "\<not> prefix w (x # v @ t)" by simp
  have "occurrences w (v @ t) = occurrences w t"
  proof (rule Cons.IH)
    fix i assume "i < length v"
    then have "\<not> prefix w (drop (Suc i) (x # v) @ t)" by (intro Cons.prems) simp
    then show "\<not> prefix w (drop i v @ t)" by simp
  qed
  with 0 show ?case by simp
qed

lemma occurrences_head:
  assumes "v \<noteq> []" "\<And>i. 0 < i \<Longrightarrow> i < length v \<Longrightarrow> \<not> prefix w (drop i v @ t)"
  shows "occurrences w (v @ t) = (if prefix w (v @ t) then 1 else 0) + occurrences w t"
proof -
  obtain x v' where v: "v = x # v'" using assms(1) by (cases v) auto
  have "occurrences w (v' @ t) = occurrences w t"
  proof (rule occurrences_skip)
    fix i assume "i < length v'"
    then have "\<not> prefix w (drop (Suc i) v @ t)" using v by (intro assms(2)) simp_all
    then show "\<not> prefix w (drop i v' @ t)" using v by simp
  qed
  then show ?thesis using v by simp
qed

lemma occurrences_split_at:
  "c \<notin> set w \<Longrightarrow> w \<noteq> [] \<Longrightarrow>
   occurrences w (a @ c # b) = occurrences w a + occurrences w b"
proof (induction a)
  case Nil
  then have "\<not> prefix w (c # b)" by (cases w) auto
  with Nil show ?case by simp
next
  case (Cons x a)
  have "prefix w ((x # a) @ c # b) \<longleftrightarrow> prefix w (x # a)"
    using prefix_before_char [OF Cons.prems(1)] by blast
  with Cons show ?case by simp
qed

text \<open>An occurrence that starts before an embedded copy of v does not reach into it.\<close>

lemma no_straddle:
  assumes "\<And>k. 0 < k \<Longrightarrow> k < length w \<Longrightarrow> clash (drop k w) v" and "u \<noteq> []"
  shows "prefix w (u @ v @ t) \<longleftrightarrow> prefix w u"
proof
  assume "prefix w (u @ v @ t)"
  then consider "prefix w u" | z where "w = u @ z" "prefix z (v @ t)"
    by (auto simp: prefix_append)
  then show "prefix w u"
  proof cases
    case 1 then show ?thesis .
  next
    case 2
    show ?thesis
    proof (cases "z = []")
      case True then show ?thesis using 2 by simp
    next
      case False
      have k: "0 < length u" "length u < length w" using assms(2) False 2(1) by simp_all
      have "z = drop (length u) w" using 2(1) by simp
      with assms(1) [OF k] have "clash z v" by simp
      with 2(2) show ?thesis using clash_append2 by blast
    qed
  qed
next
  assume "prefix w u"
  then show "prefix w (u @ v @ t)" by (rule prefix_prefix)
qed

lemma replace_keeps_prefix:
  "old \<noteq> [] \<Longrightarrow> unbordered new \<Longrightarrow> apart new old \<Longrightarrow>
   (\<And>i. i < length pre \<Longrightarrow> \<not> prefix old (drop i (pre @ s))) \<Longrightarrow> i < length pre \<Longrightarrow>
   prefix new (drop i (pre @ str_replace old new s)) \<longleftrightarrow> prefix new (drop i (pre @ s))"
proof (induction old new s arbitrary: pre rule: str_replace.induct)
  case (1 old new)
  then show ?case by simp
next
  case (2 old new c cs)
  note old = "2.prems"(1) and ub = "2.prems"(2) and ap = "2.prems"(3) and none = "2.prems"(4)
    and i = "2.prems"(5)
  show ?case
  proof (cases "prefix old (c # cs)")
    case True
    define s' where "s' = drop (length old) (c # cs)"
    have s': "c # cs = old @ s'"
      using True unfolding s'_def by (metis append_eq_conv_conj prefix_def)
    have r: "str_replace old new (c # cs) = new @ str_replace old new s'"
      unfolding s'_def using True old by simp
    have u: "drop i pre \<noteq> []" using i by simp
    have "prefix new (drop i pre @ new @ str_replace old new s') \<longleftrightarrow> prefix new (drop i pre)"
      by (rule no_straddle [OF unbordered_clash [OF ub] u])
    moreover have "prefix new (drop i pre @ old @ s') \<longleftrightarrow> prefix new (drop i pre)"
      by (rule no_straddle [OF apart_into [OF ap] u])
    ultimately have "prefix new (drop i pre @ new @ str_replace old new s') \<longleftrightarrow>
        prefix new (drop i pre @ old @ s')" by simp
    then have "prefix new (drop i (pre @ new @ str_replace old new s')) \<longleftrightarrow>
        prefix new (drop i (pre @ old @ s'))" using i by simp
    then show ?thesis unfolding r unfolding s' .
  next
    case False
    have r: "str_replace old new (c # cs) = c # str_replace old new cs"
      using False old by simp
    have "prefix new (drop i ((pre @ [c]) @ str_replace old new cs)) \<longleftrightarrow>
          prefix new (drop i ((pre @ [c]) @ cs))"
    proof (rule "2.IH"(3) [OF old False old ub ap])
      fix j assume j: "j < length (pre @ [c])"
      show "\<not> prefix old (drop j ((pre @ [c]) @ cs))"
      proof (cases "j < length pre")
        case True
        from none [OF this] show ?thesis by simp
      next
        case False
        with j have "j = length pre" by simp
        then show ?thesis using \<open>\<not> prefix old (c # cs)\<close> by simp
      qed
    next
      show "i < length (pre @ [c])" using i by simp
    qed
    then show ?thesis unfolding r by simp
  qed
qed

lemma replace_count:
  "old \<noteq> [] \<Longrightarrow> unbordered new \<Longrightarrow> unbordered old \<Longrightarrow> apart new old \<Longrightarrow>
   occurrences new (str_replace old new s) = occurrences old s + occurrences new s"
proof (induction old new s rule: str_replace.induct)
  case (1 old new)
  have "new \<noteq> []"
  proof
    assume "new = []"
    with "1.prems"(1,4) show False
      by (cases old) (auto simp: apart_def clash_def upt_conv_Cons)
  qed
  with 1 show ?case by simp
next
  case (2 old new c cs)
  note old = "2.prems"(1) and ubn = "2.prems"(2) and ubo = "2.prems"(3) and ap = "2.prems"(4)
  have new: "new \<noteq> []"
  proof
    assume "new = []"
    with old ap show False
      by (cases old) (auto simp: apart_def clash_def upt_conv_Cons)
  qed
  show ?case
  proof (cases "prefix old (c # cs)")
    case True
    define s' where "s' = drop (length old) (c # cs)"
    have s': "c # cs = old @ s'"
      using True unfolding s'_def by (metis append_eq_conv_conj prefix_def)
    have r: "str_replace old new (c # cs) = new @ str_replace old new s'"
      unfolding s'_def using True old by simp
    have IH: "occurrences new (str_replace old new s') = occurrences old s' + occurrences new s'"
      unfolding s'_def by (rule "2.IH"(2) [OF old True old ubn ubo ap])
    have a: "occurrences new (new @ str_replace old new s') =
        1 + occurrences new (str_replace old new s')"
      using occurrences_head [OF new, of new "str_replace old new s'"]
        clash_append [OF unbordered_clash [OF ubn]] by simp
    have b: "occurrences old (old @ s') = 1 + occurrences old s'"
      using occurrences_head [OF old, of old s'] clash_append [OF unbordered_clash [OF ubo]]
      by simp
    have c: "occurrences new (old @ s') = occurrences new s'"
      using occurrences_skip [of old new s'] clash_append [OF apart_inside [OF ap]] by blast
    have "occurrences new (new @ str_replace old new s') =
        occurrences old (old @ s') + occurrences new (old @ s')"
      unfolding a b c IH by simp
    then show ?thesis unfolding r unfolding s' .
  next
    case False
    have r: "str_replace old new (c # cs) = c # str_replace old new cs"
      using False old by simp
    have IH: "occurrences new (str_replace old new cs) = occurrences old cs + occurrences new cs"
      by (rule "2.IH"(3) [OF old False old ubn ubo ap])
    have "prefix new (drop 0 ([c] @ str_replace old new cs)) \<longleftrightarrow> prefix new (drop 0 ([c] @ cs))"
    proof (rule replace_keeps_prefix [OF old ubn ap])
      fix i assume "i < length [c]"
      then have "i = 0" by simp
      then show "\<not> prefix old (drop i ([c] @ cs))" using False by simp
    qed simp
    then have "prefix new (c # str_replace old new cs) \<longleftrightarrow> prefix new (c # cs)" by simp
    then show ?thesis unfolding r using IH False by simp
  qed
qed

section \<open>Where the statement is inserted\<close>

lemma rests_suffix: "t \<in> set (rests r s) \<Longrightarrow> suffix t s"
proof (induction r arbitrary: s t)
  case (Lit w)
  then show ?case by (auto simp: suffix_drop split: if_splits)
next
  case (Plus P)
  then have "t \<in> set (plus_rests P s)" by simp
  then show ?case using plus_rests_iff suffix_def by blast
next
  case (Star P)
  then have "t \<in> set (star_rests P s)" by simp
  then show ?case using star_rests_iff suffix_def by blast
next
  case (LazyStar P)
  then have "t \<in> set (star_rests P s)" using lazy_rests_set by simp
  then show ?case using star_rests_iff suffix_def by blast
next
  case (Opt r)
  then show ?case by auto
next
  case (Seq a b)
  then obtain m where "m \<in> set (rests a s)" "t \<in> set (rests b m)"
    using seq_rests_iff by blast
  with Seq.IH show ?case using suffix_order.order_trans by blast
qed

text \<open>The first match, as a cut of the text into what precedes it, the match and the rest.\<close>

lemma re_search_Some:
  assumes "re_search r s = Some (p, q)"
  shows "\<exists>m t ts. s = take p s @ m @ t \<and> p \<le> length s \<and> rests r (m @ t) = t # ts \<and>
     take q s = take p s @ m \<and> drop q s = t \<and> (\<forall>k < p. rests r (drop k s) = [])"
proof -
  from assms have "search_from r 0 s = Some (p, q)" by (simp add: re_search_def)
  from search_from_Some [OF this] obtain t ts where
    p: "p \<le> length s" and r: "rests r (drop p s) = t # ts"
    and q: "q = p + (length (drop p s) - length t)"
    and first: "\<forall>k' < p. rests r (drop k' s) = []"
    by auto
  from r have "suffix t (drop p s)" using rests_suffix [of t r "drop p s"] by simp
  then obtain m where m: "drop p s = m @ t" by (auto simp: suffix_def)
  have s: "s = take p s @ m @ t" using m by (metis append_take_drop_id)
  have lq: "q = length (take p s @ m)" using q m p by simp
  have "take q s = take p s @ m" "drop q s = t"
    using s lq by (metis append_eq_conv_conj append.assoc)+
  with s p r m first show ?thesis by auto
qed

lemma re_sub_once_Some:
  assumes "re_search r s = Some (p, q)"
  shows "re_sub_once r ins s = take q s @ ins @ drop q s"
proof -
  from assms have "search_from r 0 s = Some (p, q)" by (simp add: re_search_def)
  from search_from_bounds [OF this] have b: "p \<le> q" "q \<le> length s" by simp_all
  then have "take p s @ take (q - p) (drop p s) = take q s"
    using take_add [of p "q - p" s] by simp
  then show ?thesis using assms by (simp add: re_sub_once_def)
qed

lemma try_match_shape:
  assumes "rests try_pattern s = t # ts"
  shows "\<exists>ws. s = nl # ws @ try_open @ t \<and> ws \<noteq> [] \<and> (\<forall>c \<in> set ws. is_space c) \<and> ts = []"
proof -
  from assms obtain s' where s: "s = nl # s'" and ne: "s' \<noteq> []" "is_space (hd s')"
    and pre: "prefix try_open (dropWhile is_space s')"
    and t: "t = drop (length try_open) (dropWhile is_space s')" and ts: "ts = []"
    unfolding try_pattern_rests by (auto split: list.splits if_splits)
  from pre t have d: "dropWhile is_space s' = try_open @ t" by (auto simp: prefix_def)
  have "s' = takeWhile is_space s' @ try_open @ t"
    using d takeWhile_dropWhile_id [of is_space s'] by simp
  moreover have "takeWhile is_space s' \<noteq> []" using ne by (cases s') auto
  moreover have "\<forall>c \<in> set (takeWhile is_space s'). is_space c"
    using set_takeWhileD by fastforce
  ultimately show ?thesis using s ts by blast
qed

lemma func_match_shape:
  assumes "t \<in> set (rests func_pattern s)"
  shows "\<exists>m. s = m @ [nl] @ t"
proof -
  from assms obtain s1 where 1: "s1 \<in> set (rests (Lit ''export async function '') s)"
    and r1: "t \<in> set (rests (Seq (Plus is_word) (Seq (Lit ''('')
        (Seq (Star not_rparen) (Lit ('') {'' @ [nl]))))) s1)"
    unfolding func_pattern_def using seq_rests_iff by blast
  from r1 obtain s2 where 2: "s2 \<in> set (rests (Plus is_word) s1)"
    and r2: "t \<in> set (rests (Seq (Lit ''('') (Seq (Star not_rparen) (Lit ('') {'' @ [nl])))) s2)"
    using seq_rests_iff by blast
  from r2 obtain s3 where 3: "s3 \<in> set (rests (Lit ''('') s2)"
    and r3: "t \<in> set (rests (Seq (Star not_rparen) (Lit ('') {'' @ [nl]))) s3)"
    using seq_rests_iff by blast
  from r3 obtain s4 where 4: "s4 \<in> set (rests (Star not_rparen) s3)"
    and 5: "t \<in> set (rests (Lit ('') {'' @ [nl])) s4)"
    using seq_rests_iff by blast
  from 1 2 3 4
  have "suffix s1 s" "suffix s2 s1" "suffix s3 s2" "suffix s4 s3"
    using rests_suffix by blast+
  then have "suffix s4 s" using suffix_order.order_trans by blast
  then obtain m where m: "s = m @ s4" by (auto simp: suffix_def)
  from 5 have "s4 = ('') {'' @ [nl]) @ t" using lit_rests_iff by blast
  with m have "s = (m @ '') {'') @ [nl] @ t" by simp
  then show ?thesis by blast
qed

text \<open>Both insertions put a whole line after a line break.\<close>

lemma insert_client_lines:
  "insert_client stmt s = s \<or>
   (\<exists>a b ind. s = a @ nl # b \<and> insert_client stmt s = a @ nl # (ind @ stmt) @ nl # b \<and>
      (ind = ''    '' \<or> ind = ''  ''))"
proof (cases "contains ''  try {'' s")
  case True
  show ?thesis
  proof (cases "re_search try_pattern s")
    case None
    with True show ?thesis by (simp add: insert_client_def re_sub_once_def)
  next
    case (Some pq)
    obtain p q where pq: "pq = (p, q)" by (cases pq)
    from re_search_Some [OF Some [unfolded pq]] obtain m t ts where
      r: "rests try_pattern (m @ t) = t # ts" and tq: "take q s = take p s @ m" "drop q s = t"
      by blast
    from try_match_shape [OF r] obtain ws where "m @ t = nl # ws @ try_open @ t" by blast
    then have "m = (nl # ws @ ''try {'') @ [nl]" by (simp add: try_open_def)
    with tq have "take q s = (take p s @ nl # ws @ ''try {'') @ [nl]" by simp
    then have s: "s = (take p s @ nl # ws @ ''try {'') @ nl # drop q s"
      and i: "take q s @ (''    '' @ stmt @ [nl]) @ drop q s =
          (take p s @ nl # ws @ ''try {'') @ nl # (''    '' @ stmt) @ nl # drop q s"
      by (metis append_take_drop_id append.assoc append_Cons append_Nil)+
    have "insert_client stmt s = take q s @ (''    '' @ stmt @ [nl]) @ drop q s"
      using True re_sub_once_Some [OF Some [unfolded pq]] by (simp add: insert_client_def)
    with s i show ?thesis by metis
  qed
next
  case False
  show ?thesis
  proof (cases "re_search func_pattern s")
    case None
    with False show ?thesis by (simp add: insert_client_def re_sub_once_def)
  next
    case (Some pq)
    obtain p q where pq: "pq = (p, q)" by (cases pq)
    from re_search_Some [OF Some [unfolded pq]] obtain m t ts where
      r: "rests func_pattern (m @ t) = t # ts" and tq: "take q s = take p s @ m" "drop q s = t"
      by blast
    from r have "t \<in> set (rests func_pattern (m @ t))" by simp
    from func_match_shape [OF this] obtain m' where "m @ t = m' @ [nl] @ t" by blast
    then have "m = m' @ [nl]" by simp
    with tq have "take q s = (take p s @ m') @ [nl]" by simp
    then have s: "s = (take p s @ m') @ nl # drop q s"
      and i: "take q s @ (''  '' @ stmt @ [nl]) @ drop q s =
          (take p s @ m') @ nl # (''  '' @ stmt) @ nl # drop q s"
      by (metis append_take_drop_id append.assoc append_Cons append_Nil)+
    have "insert_client stmt s = take q s @ (''  '' @ stmt @ [nl]) @ drop q s"
      using False re_sub_once_Some [OF Some [unfolded pq]] by (simp add: insert_client_def)
    with s i show ?thesis by metis
  qed
qed

lemma add_client_count:
  assumes "nl \<notin> set w" "w \<noteq> []" "\<not> sublist w (''    '' @ stmt)"
  shows "occurrences w (add_client stmt s) = occurrences w s"
proof -
  have ins: "occurrences w (ind @ stmt) = 0" if "ind = ''    '' \<or> ind = ''  ''" for ind
  proof -
    have "sublist (ind @ stmt) (''    '' @ stmt)"
      using that by (auto intro: suffix_imp_sublist simp: suffix_def)
    then have "\<not> sublist w (ind @ stmt)"
      using assms(3) sublist_order.order_trans by blast
    then show ?thesis using occurrences_pos [of w "ind @ stmt"] by simp
  qed
  have "occurrences w (insert_client stmt s) = occurrences w s"
    using insert_client_lines [of stmt s]
  proof
    assume "insert_client stmt s = s"
    then show ?thesis by simp
  next
    assume "\<exists>a b ind. s = a @ nl # b \<and> insert_client stmt s = a @ nl # (ind @ stmt) @ nl # b \<and>
      (ind = ''    '' \<or> ind = ''  '')"
    then obtain a b ind where s: "s = a @ nl # b"
      and i: "insert_client stmt s = a @ nl # (ind @ stmt) @ nl # b"
      and ind: "ind = ''    '' \<or> ind = ''  ''" by blast
    have 1: "occurrences w (a @ nl # ((ind @ stmt) @ nl # b)) =
        occurrences w a + occurrences w ((ind @ stmt) @ nl # b)"
      by (rule occurrences_split_at [OF assms(1,2)])
    have 2: "occurrences w ((ind @ stmt) @ nl # b) = occurrences w (ind @ stmt) + occurrences w b"
      by (rule occurrences_split_at [OF assms(1,2)])
    have 3: "occurrences w (a @ nl # b) = occurrences w a + occurrences w b"
      by (rule occurrences_split_at [OF assms(1,2)])
    have "occurrences w (a @ nl # ((ind @ stmt) @ nl # b)) = occurrences w (a @ nl # b)"
      unfolding 1 2 3 ins [OF ind] by simp
    then show ?thesis using s i by simp
  qed
  then show ?thesis using add_client_cases [of stmt s] by auto
qed

lemma import_facts:
  "unbordered legacy_import" "unbordered user_import" "unbordered service_import"
  "apart user_import legacy_import" "apart service_import legacy_import"
  "nl \<notin> set user_import" "nl \<notin> set service_import"
  "\<not> sublist user_import (''    '' @ user_client)"
  "\<not> sublist service_import (''    '' @ service_client)"
  by code_simp+

lemma rewrite_count:
  "occurrences user_import (rewrite ''user'' c) =
     occurrences legacy_import c + occurrences user_import c"
  "occurrences service_import (rewrite ''service'' c) =
     occurrences legacy_import c + occurrences service_import c"
proof -
  have u: "user_import \<noteq> []" and s: "service_import \<noteq> []"
    by (simp_all add: user_import_def service_import_def)
  show "occurrences user_import (rewrite ''user'' c) =
     occurrences legacy_import c + occurrences user_import c"
    using add_client_count [OF import_facts(6) u import_facts(8)]
      replace_count [OF legacy_nonempty import_facts(2) import_facts(1) import_facts(4)]
    by (simp add: rewrite_def)
  show "occurrences service_import (rewrite ''service'' c) =
     occurrences legacy_import c + occurrences service_import c"
    using add_client_count [OF import_facts(7) s import_facts(9)]
      replace_count [OF legacy_nonempty import_facts(3) import_facts(1) import_facts(5)]
    by (simp add: rewrite_def)
qed

section \<open>The statement after the first try line\<close>

lemma scan_back_hit:
  "\<exists>l \<in> set ls. contains ''export async function'' l \<or> contains ''export function'' l \<Longrightarrow>
   scan_back ls stmt c = insert_client stmt c"
  by (induction ls) auto

lemma split_nl_nonempty: "split_nl x \<noteq> []"
  by (induction x) (auto simp: Let_def)

lemma split_nl_hd_prefix:
  "nl \<notin> set w \<Longrightarrow> prefix w x \<Longrightarrow> prefix w (hd (split_nl x))"
proof (induction x arbitrary: w)
  case Nil
  then show ?case by simp
next
  case (Cons c x)
  show ?case
  proof (cases w)
    case Nil
    then show ?thesis by simp
  next
    case (Cons a w')
    with Cons.prems have "a = c" "prefix w' x" "nl \<notin> set w'" "c \<noteq> nl" by auto
    with Cons.IH [of w'] Cons show ?thesis by (simp add: Let_def)
  qed
qed

lemma split_nl_finds:
  "nl \<notin> set w \<Longrightarrow> sublist w x \<Longrightarrow> \<exists>l \<in> set (split_nl x). sublist w l"
proof (induction x)
  case Nil
  then show ?case by simp
next
  case (Cons c x)
  from Cons.prems(2) consider "prefix w (c # x)" | "sublist w x"
    by (auto simp: sublist_Cons_right)
  then show ?case
  proof cases
    case 1
    then have "prefix w (hd (split_nl (c # x)))" using split_nl_hd_prefix Cons.prems(1) by blast
    moreover have "hd (split_nl (c # x)) \<in> set (split_nl (c # x))"
      using split_nl_nonempty [of "c # x"] by (rule hd_in_set)
    ultimately show ?thesis by blast
  next
    case 2
    from Cons.IH [OF Cons.prems(1) 2] obtain l where l: "l \<in> set (split_nl x)" "sublist w l"
      by blast
    obtain h ls where hl: "split_nl x = h # ls" using split_nl_nonempty by (cases "split_nl x") auto
    show ?thesis
    proof (cases "c = nl")
      case True
      then show ?thesis using l by (auto simp: Let_def)
    next
      case False
      then have sp: "split_nl (c # x) = (c # h) # ls" using hl by (simp add: Let_def)
      from l hl have "l = h \<or> l \<in> set ls" by simp
      then show ?thesis
      proof
        assume "l = h"
        then have "sublist w (c # h)" using l(2) by (simp add: sublist_Cons_right)
        then show ?thesis using sp by simp
      next
        assume "l \<in> set ls"
        then show ?thesis using sp l(2) by auto
      qed
    qed
  qed
qed

lemma scan_back_found:
  assumes "contains ''export async function'' x \<or> contains ''export function'' x"
  shows "scan_back (rev (split_nl x)) stmt c = insert_client stmt c"
proof -
  have a: "nl \<notin> set ''export async function''" "nl \<notin> set ''export function''"
    by (simp_all add: nl_def)
  from assms have "\<exists>l \<in> set (split_nl x).
      sublist ''export async function'' l \<or> sublist ''export function'' l"
    using split_nl_finds [OF a(1)] split_nl_finds [OF a(2)] unfolding contains_sublist by blast
  then show ?thesis using scan_back_hit [of "rev (split_nl x)"] by (simp add: contains_sublist)
qed

text \<open>Runs of white space.\<close>

lemma space_run_unique:
  assumes "\<forall>c \<in> set a. P c" "\<forall>c \<in> set b. P c" "x \<noteq> []" "\<not> P (hd x)" "y \<noteq> []" "\<not> P (hd y)"
    "a @ x = b @ y"
  shows "a = b \<and> x = y"
proof -
  have "takeWhile P (a @ x) = a" "takeWhile P (b @ y) = b"
    using assms(1-6) by (cases x; cases y; simp add: takeWhile_append2)+
  with assms(7) have "a = b" by simp
  with assms(7) show ?thesis by simp
qed

lemma before_char:
  assumes "c \<notin> set a" "a @ x = z @ c # y"
  shows "prefix a z"
proof -
  from assms(2) obtain us where "a = z @ us \<and> us @ x = c # y \<or> a @ us = z \<and> x = us @ c # y"
    unfolding append_eq_append_conv2 by blast
  then show ?thesis
  proof
    assume h: "a = z @ us \<and> us @ x = c # y"
    show ?thesis
    proof (cases us)
      case Nil
      with h show ?thesis by simp
    next
      case (Cons d us')
      with h have "c \<in> set a" by auto
      with assms(1) show ?thesis by simp
    qed
  next
    assume "a @ us = z \<and> x = us @ c # y"
    then show ?thesis by auto
  qed
qed

lemma t_not_space: "\<not> is_space (CHR ''t'')"
  by (simp add: is_space_def)

lemma nl_space: "is_space nl"
  by (simp add: is_space_def nl_def)

text \<open>
  With no \<^verbatim>\<open>supabase.\<close> up to the end of a \<^verbatim>\<open>try {\<close> line, the first usage starts
  after everything that precedes that line.
\<close>

lemma usage_start_after:
  assumes c1: "c1 = P @ nl # ind @ ''try {'' @ nl # Q"
    and none: "\<not> sublist ''supabase.'' (P @ nl # ind @ ''try {'')"
    and found: "re_search first_usage_pattern c1 = Some (m, e)"
  shows "prefix P (take m c1)"
proof (rule ccontr)
  assume np: "\<not> prefix P (take m c1)"
  from re_search_Some [OF found] obtain mt t ts where
    s: "c1 = take m c1 @ mt @ t" and r: "rests first_usage_pattern (mt @ t) = t # ts"
    by blast
  from r have "rests first_usage_pattern (mt @ t) \<noteq> []" by simp
  then obtain ws u t' where
    mt: "mt @ t = nl # ws @ u @ ''supabase.'' @ t'" and ws: "\<forall>c \<in> set ws. is_space c"
    and u: "nl \<notin> set u"
    unfolding usage_match_iff by blast
  define T where "T = take m c1"
  have cT: "c1 = T @ nl # ws @ u @ ''supabase.'' @ t'" using s mt unfolding T_def by simp
  have "prefix T c1" using cT by (rule prefixI)
  moreover have "prefix P c1" using c1 by (rule prefixI)
  ultimately have "prefix T P" using np prefix_same_cases unfolding T_def by blast
  then obtain D where D: "P = T @ D" by (auto simp: prefix_def)
  with np have "D \<noteq> []" unfolding T_def by auto
  have "T @ (nl # ws @ u @ ''supabase.'' @ t') = T @ (D @ nl # ind @ ''try {'' @ nl # Q)"
    using cT [symmetric] c1 unfolding D by simp
  then have eq: "nl # ws @ u @ ''supabase.'' @ t' = D @ nl # ind @ ''try {'' @ nl # Q"
    by (simp only: same_append_eq)
  with \<open>D \<noteq> []\<close> obtain D' where D': "D = nl # D'" by (cases D) auto
  define Y where "Y = D' @ nl # ind @ ''try {''"
  have eq': "ws @ (u @ ''supabase.'' @ t') = Y @ nl # Q" using eq D' by (simp add: Y_def)
  have tY: "CHR ''t'' \<in> set Y" by (simp add: Y_def)
  have "prefix ws Y"
  proof -
    from eq' obtain us where "ws = Y @ us \<and> us @ (u @ ''supabase.'' @ t') = nl # Q \<or>
        ws @ us = Y \<and> u @ ''supabase.'' @ t' = us @ nl # Q"
      unfolding append_eq_append_conv2 by blast
    then show ?thesis
    proof
      assume "ws = Y @ us \<and> us @ (u @ ''supabase.'' @ t') = nl # Q"
      then have "CHR ''t'' \<in> set ws" using tY by simp
      with ws t_not_space show ?thesis by blast
    next
      assume "ws @ us = Y \<and> u @ ''supabase.'' @ t' = us @ nl # Q"
      then show ?thesis by auto
    qed
  qed
  then obtain Z where Z: "Y = ws @ Z" by (auto simp: prefix_def)
  with eq' have eq2: "u @ (''supabase.'' @ t') = Z @ nl # Q" by simp
  from before_char [OF u eq2] obtain Z2 where Z2: "Z = u @ Z2" by (auto simp: prefix_def)
  with eq2 have eq3: "''supabase.'' @ t' = Z2 @ nl # Q" by simp
  have "nl \<notin> set ''supabase.''" by (simp add: nl_def)
  from before_char [OF this eq3] obtain Z3 where "Z2 = ''supabase.'' @ Z3"
    by (auto simp: prefix_def)
  with Z Z2 have "Y = (ws @ u) @ ''supabase.'' @ Z3" by simp
  then have "sublist ''supabase.'' Y" unfolding sublist_def by blast
  moreover have "P @ nl # ind @ ''try {'' = (T @ [nl]) @ Y @ []"
    using D D' by (simp add: Y_def)
  then have "sublist Y (P @ nl # ind @ ''try {'')" unfolding sublist_def by blast
  ultimately show False using none sublist_order.order_trans by blast
qed

lemma try_insert_result:
  assumes c1: "c1 = P @ nl # ind @ try_open @ Q"
    and ind: "ind \<noteq> []" "\<forall>c \<in> set ind. is_space c"
    and first: "\<not> sublist ''try {'' P"
  shows "re_sub_once try_pattern ins c1 = P @ nl # ind @ try_open @ ins @ Q"
proof -
  have to: "try_open \<noteq> []" "\<not> is_space (hd try_open)"
    by (simp_all add: try_open_def is_space_def)
  have dw: "dropWhile is_space (try_open @ x) = try_open @ x" for x
    by (simp add: try_open_def is_space_def)
  have ne: "try_open @ Q \<noteq> []" "try_open @ t \<noteq> []" for t
    by (simp_all add: try_open_def)
  have ns: "\<not> is_space (hd (try_open @ Q))" "\<not> is_space (hd (try_open @ t))" for t
    by (simp_all add: try_open_def is_space_def)
  have at: "rests try_pattern (drop (length P) c1) \<noteq> []"
  proof -
    have "drop (length P) c1 = nl # ind @ try_open @ Q" using c1 by simp
    moreover have "dropWhile is_space (ind @ try_open @ Q) = try_open @ Q"
      using ind(2) dw by (simp add: dropWhile_append2)
    moreover have "is_space (hd (ind @ try_open @ Q))" using ind by (cases ind) auto
    ultimately show ?thesis using ind(1) by (simp add: try_pattern_rests)
  qed
  have "length P \<le> length c1" using c1 by simp
  with at have "search_from try_pattern 0 c1 \<noteq> None"
    unfolding search_from_None by blast
  then obtain p q where pq: "re_search try_pattern c1 = Some (p, q)"
    by (auto simp: re_search_def)
  from re_search_Some [OF pq] obtain m t ts where
    s: "c1 = take p c1 @ m @ t" and r: "rests try_pattern (m @ t) = t # ts"
    and tq: "drop q c1 = t" and least: "\<forall>k < p. rests try_pattern (drop k c1) = []"
    by blast
  have pP: "p \<le> length P"
  proof (rule ccontr)
    assume "\<not> p \<le> length P"
    then have "length P < p" by simp
    with least have "rests try_pattern (drop (length P) c1) = []" by blast
    with at show False by simp
  qed
  from try_match_shape [OF r] obtain ws where
    m: "m @ t = nl # ws @ try_open @ t" and ws: "ws \<noteq> []" "\<forall>c \<in> set ws. is_space c" by blast
  define D where "D = drop p P"
  define Tp where "Tp = take p c1"
  have "take p (P @ nl # ind @ try_open @ Q) = take p P" using pP by simp
  then have "Tp = take p P" unfolding Tp_def c1 .
  then have P: "P = Tp @ D" unfolding D_def by simp
  have a: "c1 = (Tp @ D) @ nl # ind @ try_open @ Q" using c1 unfolding P .
  have b: "c1 = Tp @ nl # ws @ try_open @ t" using s unfolding m Tp_def .
  from a b have "(Tp @ D) @ nl # ind @ try_open @ Q = Tp @ nl # ws @ try_open @ t" by simp
  then have eq: "D @ nl # ind @ try_open @ Q = nl # ws @ try_open @ t" by simp
  have "t = Q"
  proof (cases D)
    case Nil
    with eq have "ind @ (try_open @ Q) = ws @ (try_open @ t)" by simp
    then have "ind = ws \<and> try_open @ Q = try_open @ t"
      by (rule space_run_unique [OF ind(2) ws(2) ne(1) ns(1) ne(2) ns(2)])
    then show ?thesis by simp
  next
    case (Cons d D')
    with eq have eq': "(D' @ nl # ind) @ (try_open @ Q) = ws @ (try_open @ t)" by simp
    show ?thesis
    proof (cases "\<forall>c \<in> set D'. is_space c")
      case True
      then have "\<forall>c \<in> set (D' @ nl # ind). is_space c" using ind(2) nl_space by auto
      then have "D' @ nl # ind = ws \<and> try_open @ Q = try_open @ t"
        using ws(2) ne(1) ns(1) ne(2) ns(2) eq' by (rule space_run_unique)
      then show ?thesis by simp
    next
      case False
      then obtain x where x: "x \<in> set D'" "\<not> is_space x" by blast
      have f1: "dropWhile is_space ((D' @ nl # ind) @ (try_open @ Q)) =
          dropWhile is_space D' @ nl # ind @ try_open @ Q"
        using dropWhile_append1 [of x D' is_space "nl # ind @ try_open @ Q"] x by simp
      have f2: "dropWhile is_space (ws @ (try_open @ t)) = try_open @ t"
        using ws(2) dw by (simp add: dropWhile_append2)
      have "dropWhile is_space ((D' @ nl # ind) @ (try_open @ Q)) =
          dropWhile is_space (ws @ (try_open @ t))"
        by (simp only: eq')
      then have "dropWhile is_space D' @ nl # ind @ try_open @ Q = try_open @ t"
        unfolding f1 f2 .
      moreover have "try_open @ t = ''try {'' @ nl # t" by (simp add: try_open_def)
      ultimately have "dropWhile is_space D' @ nl # ind @ try_open @ Q = ''try {'' @ nl # t"
        by (rule trans)
      then have pf: "prefix ''try {'' (dropWhile is_space D' @ nl # ind @ try_open @ Q)"
        by (rule prefixI)
      have nonl: "nl \<notin> set ''try {''" by (simp add: nl_def)
      have "prefix ''try {'' (dropWhile is_space D')"
        by (rule iffD1 [OF prefix_before_char [OF nonl] pf])
      then have "sublist ''try {'' (dropWhile is_space D')" by (rule prefix_imp_sublist)
      moreover have "sublist (dropWhile is_space D') D'" by (rule sublist_dropWhile)
      moreover have "sublist D' P"
      proof -
        have "P = (Tp @ [d]) @ D' @ []" using P Cons by simp
        then show ?thesis unfolding sublist_def by blast
      qed
      ultimately show ?thesis using first sublist_order.order_trans by blast
    qed
  qed
  with tq have dq: "drop q c1 = Q" by simp
  have "take q c1 @ Q = (P @ nl # ind @ try_open) @ Q"
    using dq c1 append_take_drop_id [of q c1] by simp
  then have "take q c1 = P @ nl # ind @ try_open" by (simp only: append_same_eq)
  with dq re_sub_once_Some [OF pq, of ins] show ?thesis by simp
qed

lemma add_client_after_try:
  assumes c1: "c1 = P @ nl # ind0 @ ''  '' @ try_open @ Q"
    and ind0: "\<forall>c \<in> set ind0. is_space c"
    and fn: "contains ''export async function'' P \<or> contains ''export function'' P"
    and first: "\<not> sublist ''try {'' P"
    and none: "\<not> sublist ''supabase.'' (P @ nl # ind0 @ ''  try {'')"
    and usage: "nl # Q = Q1 @ nl # ws @ u @ ''supabase.'' @ Q2" "ws \<noteq> []"
      "\<forall>c \<in> set ws. is_space c"
      "nl \<notin> set u"
  shows "add_client stmt c1 = P @ nl # ind0 @ ''  '' @ try_open @ (''    '' @ stmt @ [nl]) @ Q"
proof -
  define X0 where "X0 = (P @ nl # ind0 @ ''  try {'') @ Q1"
  define k where "k = length X0"
  have "c1 = (P @ nl # ind0 @ ''  try {'') @ (nl # Q)"
    unfolding c1 by (simp add: try_open_def)
  then have cX: "c1 = X0 @ nl # ws @ u @ ''supabase.'' @ Q2"
    unfolding usage(1) X0_def by simp
  have dk: "drop k c1 = nl # ws @ u @ ''supabase.'' @ Q2"
    unfolding cX k_def by simp
  have "rests first_usage_pattern (drop k c1) \<noteq> []"
    unfolding usage_match_iff dk using usage(2-4) by blast
  moreover have "k \<le> length c1" unfolding cX k_def by simp
  ultimately have "search_from first_usage_pattern 0 c1 \<noteq> None"
    unfolding search_from_None by blast
  then obtain m e where me: "re_search first_usage_pattern c1 = Some (m, e)"
    by (auto simp: re_search_def)
  have c1': "c1 = P @ nl # (ind0 @ ''  '') @ ''try {'' @ nl # Q"
    using c1 by (simp add: try_open_def)
  have none': "\<not> sublist ''supabase.'' (P @ nl # (ind0 @ ''  '') @ ''try {'')"
    using none by simp
  from usage_start_after [OF c1' none' me] obtain X where X: "take m c1 = P @ X"
    by (auto simp: prefix_def)
  have "sublist P (P @ X)" by (rule prefix_imp_sublist) simp
  then have "contains ''export async function'' (take m c1) \<or>
        contains ''export function'' (take m c1)"
    using fn sublist_order.order_trans unfolding X contains_sublist by blast
  then have "add_client stmt c1 = insert_client stmt c1"
    using me scan_back_found by (simp add: add_client_def)
  moreover have "contains ''  try {'' c1"
  proof -
    have "c1 = (P @ nl # ind0) @ ''  try {'' @ (nl # Q)" using c1 by (simp add: try_open_def)
    then show ?thesis unfolding contains_sublist sublist_def by blast
  qed
  moreover have "re_sub_once try_pattern (''    '' @ stmt @ [nl]) c1 =
      P @ nl # (ind0 @ ''  '') @ try_open @ (''    '' @ stmt @ [nl]) @ Q"
  proof (rule try_insert_result)
    show "c1 = P @ nl # (ind0 @ ''  '') @ try_open @ Q" using c1 by simp
    show "ind0 @ ''  '' \<noteq> []" by simp
    show "\<forall>c \<in> set (ind0 @ ''  ''). is_space c" using ind0 by (auto simp: is_space_def)
    show "\<not> sublist ''try {'' P" by (rule first)
  qed
  ultimately show ?thesis by (simp add: insert_client_def)
qed

lemma transfer_facts:
  "apart ''try {'' user_import" "apart ''try {'' service_import"
  "apart ''supabase.'' user_import" "apart ''supabase.'' service_import"
  "nl \<notin> set legacy_import"
  by code_simp+

lemma rewrite_after_try:
  assumes content: "content = H @ nl # R1 @ nl # ind0 @ ''  try {'' @ nl # Q"
    and tail: "\<not> contains legacy_import (R1 @ nl # ind0 @ ''  try {'' @ nl # Q)"
    and ind0: "\<forall>c \<in> set ind0. is_space c"
    and fn: "contains ''export async function'' R1 \<or> contains ''export function'' R1"
    and first: "\<not> contains ''try {'' (H @ nl # R1)"
    and none: "\<not> contains ''supabase.'' (H @ nl # R1 @ nl # ind0 @ ''  try {'')"
    and usage: "nl # Q = Q1 @ nl # ws @ u @ ''supabase.'' @ Q2" "ws \<noteq> []"
      "\<forall>c \<in> set ws. is_space c" "nl \<notin> set u"
    and new: "apart ''try {'' new_import" "apart ''supabase.'' new_import"
  shows "add_client stmt (str_replace legacy_import new_import content) =
     str_replace legacy_import new_import H @ nl # R1 @ nl # ind0 @ ''  try {'' @ nl #
       ''    '' @ stmt @ nl # Q"
proof -
  define H' where "H' = str_replace legacy_import new_import H"
  define P where "P = H' @ nl # R1"
  define c1 where "c1 = str_replace legacy_import new_import content"
  note nonl = transfer_facts(5)
  have sub: "\<not> sublist legacy_import x"
    if "sublist x (R1 @ nl # ind0 @ ''  try {'' @ nl # Q)" for x
    using tail that sublist_order.order_trans unfolding contains_sublist by blast
  have split: "str_replace legacy_import new_import (H @ nl # x) = H' @ nl # x"
    if "sublist x (R1 @ nl # ind0 @ ''  try {'' @ nl # Q)" for x
    unfolding H'_def
    using replace_split_at [OF legacy_nonempty nonl, of new_import H x]
      replace_absent [OF legacy_nonempty sub [OF that], of new_import]
    by simp
  have c1: "c1 = P @ nl # ind0 @ ''  '' @ try_open @ Q"
  proof -
    have "c1 = H' @ nl # R1 @ nl # ind0 @ ''  try {'' @ nl # Q"
      unfolding c1_def content by (rule split) simp
    then show ?thesis by (simp add: P_def try_open_def)
  qed
  have sR1: "sublist R1 (R1 @ nl # ind0 @ ''  try {'' @ nl # Q)"
    by (rule prefix_imp_sublist) simp
  have sR2: "sublist (R1 @ nl # ind0 @ ''  try {'') (R1 @ nl # ind0 @ ''  try {'' @ nl # Q)"
    by (rule prefix_imp_sublist) (simp add: prefix_def)
  have P': "P = str_replace legacy_import new_import (H @ nl # R1)"
    unfolding P_def using split [OF sR1] by simp
  have first': "\<not> sublist ''try {'' P"
    unfolding P'
    using replace_adds_no [OF legacy_nonempty _ new(1)] first
    by (simp add: contains_sublist)
  have "P @ nl # ind0 @ ''  try {'' =
      str_replace legacy_import new_import (H @ nl # (R1 @ nl # ind0 @ ''  try {''))"
    unfolding P_def using split [OF sR2] by simp
  then have none': "\<not> sublist ''supabase.'' (P @ nl # ind0 @ ''  try {'')"
    using replace_adds_no [OF legacy_nonempty _ new(2)] none
    by (simp add: contains_sublist)
  have fn': "contains ''export async function'' P \<or> contains ''export function'' P"
  proof -
    have "sublist R1 P" unfolding P_def by (rule suffix_imp_sublist) (simp add: suffix_def)
    then show ?thesis using fn sublist_order.order_trans unfolding contains_sublist by blast
  qed
  have "add_client stmt c1 = P @ nl # ind0 @ ''  '' @ try_open @ (''    '' @ stmt @ [nl]) @ Q"
    by (rule add_client_after_try [OF c1 ind0 fn' first' none' usage])
  then show ?thesis unfolding c1_def P_def H'_def by (simp add: try_open_def)
qed

section \<open>One file\<close>

text \<open>
  C7. A task whose path names nothing on disk prints the ``file not found'' line and
  returns \<open>False\<close>; nothing is raised and the file system is left as it was.
\<close>

theorem fix_file_missing:
  "fs st filepath = None \<Longrightarrow>
   fix_file filepath auth_type st =
     (Inr False, st\<lparr>console := console st @ [NotFound filepath]\<rparr>)"
  by (simp add: fix_file_def print_def)

theorem fix_file_missing_witness:
  "fs \<lparr>fs = Map.empty, console = []\<rparr> ''app/api/health/route.ts'' = None \<and>
   fix_file ''app/api/health/route.ts'' ''service'' \<lparr>fs = Map.empty, console = []\<rparr> =
     (Inr False, \<lparr>fs = Map.empty, console = [NotFound ''app/api/health/route.ts'']\<rparr>)"
  using fix_file_missing [of "\<lparr>fs = Map.empty, console = []\<rparr>" "''app/api/health/route.ts''"
      "''service''"]
  by simp

text \<open>
  C5. A file whose text does not contain the legacy import is reported as already fixed:
  the call returns \<open>True\<close> and the file system, hence the file, is unchanged.
\<close>

theorem fix_file_without_legacy:
  "fs st filepath = Some (File content) \<Longrightarrow> \<not> contains legacy_import content \<Longrightarrow>
   fix_file filepath auth_type st =
     (Inr True, st\<lparr>console := console st @ [AlreadyFixed filepath]\<rparr>)"
  by (simp add: fix_file_def print_def)

theorem fix_file_without_legacy_witness:
  "fs \<lparr>fs = [''app/api/metrics/route.ts'' \<mapsto> File ''export {}''], console = []\<rparr>
      ''app/api/metrics/route.ts'' = Some (File ''export {}'') \<and>
   \<not> contains legacy_import ''export {}'' \<and>
   fix_file ''app/api/metrics/route.ts'' ''user''
      \<lparr>fs = [''app/api/metrics/route.ts'' \<mapsto> File ''export {}''], console = []\<rparr> =
     (Inr True, \<lparr>fs = [''app/api/metrics/route.ts'' \<mapsto> File ''export {}''],
                 console = [AlreadyFixed ''app/api/metrics/route.ts'']\<rparr>)"
  using fix_file_without_legacy
    [of "\<lparr>fs = [''app/api/metrics/route.ts'' \<mapsto> File ''export {}''], console = []\<rparr>"
      "''app/api/metrics/route.ts''" "''export {}''" "''user''"]
  by (simp add: legacy_import_def)




subsection \<open>The statement after the first try line\<close>

lemma fix_file_after_try:
  assumes fl: "fs st filepath = Some (File content)"
    and content: "content = H @ nl # R1 @ nl # ind0 @ ''  try {'' @ nl # Q"
    and head: "contains legacy_import H"
    and tail: "\<not> contains legacy_import (R1 @ nl # ind0 @ ''  try {'' @ nl # Q)"
    and ind0: "\<forall>c \<in> set ind0. is_space c"
    and fn: "contains ''export async function'' R1 \<or> contains ''export function'' R1"
    and first: "\<not> contains ''try {'' (H @ nl # R1)"
    and none: "\<not> contains ''supabase.'' (H @ nl # R1 @ nl # ind0 @ ''  try {'')"
    and usage: "nl # Q = Q1 @ nl # ws @ u @ ''supabase.'' @ Q2" "ws \<noteq> []"
      "\<forall>c \<in> set ws. is_space c" "nl \<notin> set u"
    and mode: "auth_type = ''user'' \<and> new_import = user_import \<and> stmt = user_client \<or>
       auth_type = ''service'' \<and> new_import = service_import \<and> stmt = service_client"
  shows "fix_file filepath auth_type st =
     (Inr True,
      st\<lparr>fs := (fs st)(filepath \<mapsto> File
           (str_replace legacy_import new_import H @ nl # R1 @ nl # ind0 @ ''  try {'' @ nl #
              ''    '' @ stmt @ nl # Q)),
         console := console st @ [Fixed filepath auth_type]\<rparr>) \<and>
     contains new_import (str_replace legacy_import new_import H)"
proof -
  have a: "auth_type = ''user'' \<or> auth_type = ''service''" using mode by blast
  have ap: "apart ''try {'' new_import" "apart ''supabase.'' new_import"
    using mode transfer_facts(1-4) by auto
  have "sublist H content" unfolding content by (rule prefix_imp_sublist) simp
  then have legacy: "contains legacy_import content"
    using head sublist_order.order_trans unfolding contains_sublist by blast
  have "rewrite auth_type content = add_client stmt (str_replace legacy_import new_import content)"
    using mode by (auto simp: rewrite_def)
  also have "\<dots> = str_replace legacy_import new_import H @ nl # R1 @ nl # ind0 @ ''  try {'' @ nl #
       ''    '' @ stmt @ nl # Q"
    by (rule rewrite_after_try [OF content tail ind0 fn first none usage ap])
  finally have "rewrite auth_type content =
      str_replace legacy_import new_import H @ nl # R1 @ nl # ind0 @ ''  try {'' @ nl #
       ''    '' @ stmt @ nl # Q" .
  moreover have "contains new_import (str_replace legacy_import new_import H)"
    using replace_puts_new [OF legacy_nonempty] head by (simp add: contains_sublist)
  ultimately show ?thesis using fix_file_rewrites [OF fl legacy a] by simp
qed

text \<open>
  C1, as stated, fails: with the try block indented by tabs the text has no
  \<^verbatim>\<open>'  try {'\<close>, and the statement goes after the opening line of the function, not
  after the opening of the try block.
\<close>

theorem tab_indented_try:
  "rewrite ''user''
     (legacy_import @ ''\<newline>export async function GET() {\<newline>'' @ [tab] @ ''try {\<newline>'' @
        [tab, tab] @ ''await supabase.from(T)\<newline>'' @ [tab] @ ''} catch {}\<newline>}\<newline>'') =
   user_import @ ''\<newline>export async function GET() {\<newline>  const supabase = await createClient()\<newline>'' @
        [tab] @ ''try {\<newline>'' @
        [tab, tab] @ ''await supabase.from(T)\<newline>'' @ [tab] @ ''} catch {}\<newline>}\<newline>'' \<and>
   \<not> contains (''try {\<newline>    const supabase = await createClient()'')
     (user_import @ ''\<newline>export async function GET() {\<newline>  const supabase = await createClient()\<newline>'' @
        [tab] @ ''try {\<newline>'' @
        [tab, tab] @ ''await supabase.from(T)\<newline>'' @ [tab] @ ''} catch {}\<newline>}\<newline>'')"
  by code_simp

text \<open>
  C1, amended. The file is a header \<open>H\<close> with the legacy import, a line break, a part
  \<open>R1\<close> that declares an exported function, and the first \<^verbatim>\<open>try {\<close> of the text on a
  line of its own, indented by white space that ends in two spaces; there is no legacy
  import after the header and no \<^verbatim>\<open>supabase.\<close> up to the \<^verbatim>\<open>try {\<close>; a later line has
  \<^verbatim>\<open>supabase.\<close> after leading white space. Then mode \<^verbatim>\<open>user\<close> writes the text with the
  imports of the header replaced, which contains the new import, and with the line
  \<^verbatim>\<open>    const supabase = await createClient()\<close> directly after the \<^verbatim>\<open>try {\<close> line.
\<close>

theorem user_client_after_try:
  assumes "fs st filepath = Some (File content)"
    and "content = H @ nl # R1 @ nl # ind0 @ ''  try {'' @ nl # Q"
    and "contains legacy_import H"
    and "\<not> contains legacy_import (R1 @ nl # ind0 @ ''  try {'' @ nl # Q)"
    and "\<forall>c \<in> set ind0. is_space c"
    and "contains ''export async function'' R1 \<or> contains ''export function'' R1"
    and "\<not> contains ''try {'' (H @ nl # R1)"
    and "\<not> contains ''supabase.'' (H @ nl # R1 @ nl # ind0 @ ''  try {'')"
    and "nl # Q = Q1 @ nl # ws @ u @ ''supabase.'' @ Q2" "ws \<noteq> []"
      "\<forall>c \<in> set ws. is_space c" "nl \<notin> set u"
  shows "fix_file filepath ''user'' st =
     (Inr True,
      st\<lparr>fs := (fs st)(filepath \<mapsto> File
           (str_replace legacy_import user_import H @ nl # R1 @ nl # ind0 @ ''  try {'' @ nl #
              ''    const supabase = await createClient()'' @ nl # Q)),
         console := console st @ [Fixed filepath ''user'']\<rparr>) \<and>
     contains user_import (str_replace legacy_import user_import H)"
  using fix_file_after_try [OF assms, of "''user''" user_import user_client]
  by (simp add: user_client_def)

theorem user_client_after_try_witness:
  "fix_file ''app/api/payouts/status/route.ts'' ''user''
     \<lparr>fs = [''app/api/payouts/status/route.ts'' \<mapsto> File
        (legacy_import @ nl # ''export async function GET() {'' @ nl # [] @ ''  try {'' @ nl #
           ''    await supabase.from(T)\<newline>  } catch {}\<newline>}\<newline>'')],
      console = []\<rparr> =
   (Inr True,
    \<lparr>fs = [''app/api/payouts/status/route.ts'' \<mapsto> File
        (user_import @ nl #
           ''export async function GET() {'' @ nl # [] @ ''  try {'' @ nl #
           ''    const supabase = await createClient()'' @ nl #
           ''    await supabase.from(T)\<newline>  } catch {}\<newline>}\<newline>'')],
     console = [Fixed ''app/api/payouts/status/route.ts'' ''user'']\<rparr>) \<and>
   contains user_import user_import"
proof -
  have 0: "str_replace legacy_import user_import legacy_import = user_import" by code_simp
  have 1: "contains legacy_import legacy_import" by code_simp
  have 2: "\<not> contains legacy_import (''export async function GET() {'' @ nl # [] @ ''  try {'' @ nl #
           ''    await supabase.from(T)\<newline>  } catch {}\<newline>}\<newline>'')" by code_simp
  have 3: "contains ''export async function'' ''export async function GET() {'' \<or>
           contains ''export function'' ''export async function GET() {''" by code_simp
  have 4: "\<not> contains ''try {'' (legacy_import @ nl # ''export async function GET() {'')"
    by code_simp
  have 5: "\<not> contains ''supabase.''
      (legacy_import @ nl # ''export async function GET() {'' @ nl # [] @ ''  try {'')"
    by code_simp
  have 6: "nl # ''    await supabase.from(T)\<newline>  } catch {}\<newline>}\<newline>'' =
      [] @ nl # ''    '' @ ''await '' @ ''supabase.'' @ ''from(T)\<newline>  } catch {}\<newline>}\<newline>''"
    by simp
  have 7: "\<forall>c \<in> set ''    ''. is_space c" "nl \<notin> set ''await ''"
    by (simp_all add: is_space_def nl_def)
  from user_client_after_try
    [of "\<lparr>fs = [''app/api/payouts/status/route.ts'' \<mapsto> File
        (legacy_import @ nl # ''export async function GET() {'' @ nl # [] @ ''  try {'' @ nl #
           ''    await supabase.from(T)\<newline>  } catch {}\<newline>}\<newline>'')], console = []\<rparr>"
      "''app/api/payouts/status/route.ts''" _ legacy_import "''export async function GET() {''"
      "[]" "''    await supabase.from(T)\<newline>  } catch {}\<newline>}\<newline>''",
      OF _ refl 1 2 _ 3 4 5 6 _ 7]
  show ?thesis by (simp add: 0)
qed

text \<open>
  C2, as stated, fails: an exported function declared with \<^verbatim>\<open>export default async function\<close>
  is not found by the backward scan, and the text gets the new import but no statement.
\<close>

theorem default_export_gets_no_client:
  "rewrite ''service''
     (legacy_import @ ''\<newline>export default async function handler(req) {\<newline>  try {\<newline>    await supabase.from(T)\<newline>  } catch {}\<newline>}\<newline>'') =
   service_import @ ''\<newline>export default async function handler(req) {\<newline>  try {\<newline>    await supabase.from(T)\<newline>  } catch {}\<newline>}\<newline>'' \<and>
   \<not> contains service_client
     (service_import @ ''\<newline>export default async function handler(req) {\<newline>  try {\<newline>    await supabase.from(T)\<newline>  } catch {}\<newline>}\<newline>'')"
  by code_simp

text \<open>
  C2, amended. For a file of the same shape as in C1, mode \<^verbatim>\<open>service\<close> writes the text with
  the imports of the header replaced by the service-role import and with the synchronous
  line \<^verbatim>\<open>    const supabase = createServiceRoleClient()\<close> directly after the \<^verbatim>\<open>try {\<close>
  line.
\<close>

theorem service_client_after_try:
  assumes "fs st filepath = Some (File content)"
    and "content = H @ nl # R1 @ nl # ind0 @ ''  try {'' @ nl # Q"
    and "contains legacy_import H"
    and "\<not> contains legacy_import (R1 @ nl # ind0 @ ''  try {'' @ nl # Q)"
    and "\<forall>c \<in> set ind0. is_space c"
    and "contains ''export async function'' R1 \<or> contains ''export function'' R1"
    and "\<not> contains ''try {'' (H @ nl # R1)"
    and "\<not> contains ''supabase.'' (H @ nl # R1 @ nl # ind0 @ ''  try {'')"
    and "nl # Q = Q1 @ nl # ws @ u @ ''supabase.'' @ Q2" "ws \<noteq> []"
      "\<forall>c \<in> set ws. is_space c" "nl \<notin> set u"
  shows "fix_file filepath ''service'' st =
     (Inr True,
      st\<lparr>fs := (fs st)(filepath \<mapsto> File
           (str_replace legacy_import service_import H @ nl # R1 @ nl # ind0 @ ''  try {'' @ nl #
              ''    const supabase = createServiceRoleClient()'' @ nl # Q)),
         console := console st @ [Fixed filepath ''service'']\<rparr>) \<and>
     contains service_import (str_replace legacy_import service_import H)"
  using fix_file_after_try [OF assms, of "''service''" service_import service_client]
  by (simp add: service_client_def)

theorem service_client_after_try_witness:
  "fix_file ''app/api/webhooks/stripe/route.ts'' ''service''
     \<lparr>fs = [''app/api/webhooks/stripe/route.ts'' \<mapsto> File
        (legacy_import @ nl # ''export async function POST(request: Request) {'' @ nl # [] @ ''  try {'' @ nl #
           ''    const { data } = await supabase.from(T).select()\<newline>  } catch {}\<newline>}\<newline>'')],
      console = []\<rparr> =
   (Inr True,
    \<lparr>fs = [''app/api/webhooks/stripe/route.ts'' \<mapsto> File
        (service_import @ nl #
           ''export async function POST(request: Request) {'' @ nl # [] @ ''  try {'' @ nl #
           ''    const supabase = createServiceRoleClient()'' @ nl #
           ''    const { data } = await supabase.from(T).select()\<newline>  } catch {}\<newline>}\<newline>'')],
     console = [Fixed ''app/api/webhooks/stripe/route.ts'' ''service'']\<rparr>) \<and>
   contains service_import service_import"
proof -
  have 0: "str_replace legacy_import service_import legacy_import = service_import" by code_simp
  have 1: "contains legacy_import legacy_import" by code_simp
  have 2: "\<not> contains legacy_import (''export async function POST(request: Request) {'' @ nl # [] @ ''  try {'' @ nl #
           ''    const { data } = await supabase.from(T).select()\<newline>  } catch {}\<newline>}\<newline>'')" by code_simp
  have 3: "contains ''export async function'' ''export async function POST(request: Request) {'' \<or>
           contains ''export function'' ''export async function POST(request: Request) {''" by code_simp
  have 4: "\<not> contains ''try {'' (legacy_import @ nl # ''export async function POST(request: Request) {'')"
    by code_simp
  have 5: "\<not> contains ''supabase.''
      (legacy_import @ nl # ''export async function POST(request: Request) {'' @ nl # [] @ ''  try {'')"
    by code_simp
  have 6: "nl # ''    const { data } = await supabase.from(T).select()\<newline>  } catch {}\<newline>}\<newline>'' =
      [] @ nl # ''    '' @ ''const { data } = await '' @ ''supabase.'' @ ''from(T).select()\<newline>  } catch {}\<newline>}\<newline>''"
    by simp
  have 7: "\<forall>c \<in> set ''    ''. is_space c" "nl \<notin> set ''const { data } = await ''"
    by (simp_all add: is_space_def nl_def)
  from service_client_after_try
    [of "\<lparr>fs = [''app/api/webhooks/stripe/route.ts'' \<mapsto> File
        (legacy_import @ nl # ''export async function POST(request: Request) {'' @ nl # [] @ ''  try {'' @ nl #
           ''    const { data } = await supabase.from(T).select()\<newline>  } catch {}\<newline>}\<newline>'')], console = []\<rparr>"
      "''app/api/webhooks/stripe/route.ts''" _ legacy_import "''export async function POST(request: Request) {''"
      "[]" "''    const { data } = await supabase.from(T).select()\<newline>  } catch {}\<newline>}\<newline>''",
      OF _ refl 1 2 _ 3 4 5 6 _ 7]
  show ?thesis by (simp add: 0)
qed

text \<open>
  C3, as stated, fails: with two legacy imports in the input the output has the
  replacement import twice.
\<close>

theorem two_imports_two_replacements:
  "contains legacy_import (legacy_import @ [nl] @ legacy_import @ ''\<newline>  supabase.from(T)'') \<and>
   re_search first_usage_pattern
      (legacy_import @ [nl] @ legacy_import @ ''\<newline>  supabase.from(T)'') = Some (83, 95) \<and>
   rewrite ''user'' (legacy_import @ [nl] @ legacy_import @ ''\<newline>  supabase.from(T)'') =
     user_import @ [nl] @ user_import @ ''\<newline>  supabase.from(T)'' \<and>
   occurrences user_import (user_import @ [nl] @ user_import @ ''\<newline>  supabase.from(T)'') = 2"
  by code_simp

text \<open>
  C3, amended. For a file with the legacy import, in mode \<^verbatim>\<open>user\<close> or \<^verbatim>\<open>service\<close>
  (whether or not a usage follows): the text written back does not contain the legacy
  import, and it contains the replacement import of the mode once for every occurrence
  of the legacy import in the input, in addition to the occurrences the input already
  had; in particular at least once, and exactly once for an input with one legacy import
  and no replacement import.
\<close>

theorem import_replaced:
  assumes "fs st filepath = Some (File content)"
    and "contains legacy_import content"
    and "auth_type = ''user'' \<and> new_import = user_import \<or>
         auth_type = ''service'' \<and> new_import = service_import"
  shows "fix_file filepath auth_type st =
     (Inr True,
      st\<lparr>fs := (fs st)(filepath \<mapsto> File (rewrite auth_type content)),
         console := console st @ [Fixed filepath auth_type]\<rparr>) \<and>
     \<not> contains legacy_import (rewrite auth_type content) \<and>
     contains new_import (rewrite auth_type content) \<and>
     occurrences new_import (rewrite auth_type content) =
       occurrences legacy_import content + occurrences new_import content"
proof -
  have a: "auth_type = ''user'' \<or> auth_type = ''service''" using assms(3) by blast
  have n: "occurrences new_import (rewrite auth_type content) =
       occurrences legacy_import content + occurrences new_import content"
    using assms(3) rewrite_count [of content] by auto
  have "0 < occurrences legacy_import content"
    using assms(2) by (simp add: occurrences_pos contains_sublist)
  with n have "0 < occurrences new_import (rewrite auth_type content)" by simp
  then have "contains new_import (rewrite auth_type content)"
    by (simp add: occurrences_pos contains_sublist)
  moreover have "\<not> contains legacy_import (rewrite auth_type content)"
    using rewrite_no_legacy [OF a] by (simp add: contains_sublist)
  ultimately show ?thesis using fix_file_rewrites [OF assms(1,2) a] n by simp
qed

theorem import_replaced_witness:
  "fix_file ''app/api/metrics/route.ts'' ''service''
     \<lparr>fs = [''app/api/metrics/route.ts'' \<mapsto> File (legacy_import @ ''\<newline>export {}'')],
      console = []\<rparr> =
     (Inr True,
      \<lparr>fs = [''app/api/metrics/route.ts'' \<mapsto>
               File (rewrite ''service'' (legacy_import @ ''\<newline>export {}''))],
       console = [Fixed ''app/api/metrics/route.ts'' ''service'']\<rparr>) \<and>
     \<not> contains legacy_import (rewrite ''service'' (legacy_import @ ''\<newline>export {}'')) \<and>
     contains service_import (rewrite ''service'' (legacy_import @ ''\<newline>export {}'')) \<and>
     occurrences service_import (rewrite ''service'' (legacy_import @ ''\<newline>export {}'')) =
       occurrences legacy_import (legacy_import @ ''\<newline>export {}'') +
       occurrences service_import (legacy_import @ ''\<newline>export {}'')"
proof -
  have "contains legacy_import (legacy_import @ ''\<newline>export {}'')" by code_simp
  from import_replaced
    [of "\<lparr>fs = [''app/api/metrics/route.ts'' \<mapsto> File (legacy_import @ ''\<newline>export {}'')],
          console = []\<rparr>"
      "''app/api/metrics/route.ts''" "legacy_import @ ''\<newline>export {}''" "''service''"
      service_import, OF _ this]
  show ?thesis by simp
qed

text \<open>
  C4, as stated, fails: a file with the legacy import and no usage of the client is
  rewritten (the import alone changes the text) and the call returns \<open>True\<close>.
\<close>

theorem fix_file_true_without_usage:
  "contains legacy_import (legacy_import @ [nl]) \<and>
   re_search first_usage_pattern (legacy_import @ [nl]) = None \<and>
   re_search first_usage_pattern (service_import @ [nl]) = None \<and>
   fix_file ''app/api/health/route.ts'' ''service''
     \<lparr>fs = [''app/api/health/route.ts'' \<mapsto> File (legacy_import @ [nl])], console = []\<rparr> =
   (Inr True,
    \<lparr>fs = [''app/api/health/route.ts'' \<mapsto> File (service_import @ [nl])],
     console = [Fixed ''app/api/health/route.ts'' ''service'']\<rparr>)"
proof -
  have "contains legacy_import (legacy_import @ [nl])" by code_simp
  moreover have "re_search first_usage_pattern (legacy_import @ [nl]) = None" by code_simp
  moreover have "re_search first_usage_pattern (service_import @ [nl]) = None" by code_simp
  moreover have "rewrite ''service'' (legacy_import @ [nl]) = service_import @ [nl]"
    by code_simp
  moreover have "service_import @ [nl] \<noteq> legacy_import @ [nl]" by code_simp
  ultimately show ?thesis by (simp add: fix_file_def print_def)
qed

text \<open>
  C4, amended. For a file with the legacy import, in mode \<^verbatim>\<open>user\<close> or \<^verbatim>\<open>service\<close>, in
  which the usage pattern is not matched (the script looks for it in the text whose
  import is already replaced): the file is written with the import replaced and nothing
  else changed, the ``fixed'' line is printed and the call returns \<open>True\<close>.
\<close>

theorem fix_file_without_usage:
  assumes "fs st filepath = Some (File content)"
    and "contains legacy_import content"
    and "auth_type = ''user'' \<and> new_import = user_import \<or>
         auth_type = ''service'' \<and> new_import = service_import"
    and "re_search first_usage_pattern (str_replace legacy_import new_import content) = None"
  shows "fix_file filepath auth_type st =
     (Inr True,
      st\<lparr>fs := (fs st)(filepath \<mapsto> File (str_replace legacy_import new_import content)),
         console := console st @ [Fixed filepath auth_type]\<rparr>)"
proof -
  have a: "auth_type = ''user'' \<or> auth_type = ''service''" using assms(3) by blast
  have "rewrite auth_type content = str_replace legacy_import new_import content"
    using assms(3,4) by (auto simp: rewrite_def add_client_def)
  with fix_file_rewrites [OF assms(1,2) a] show ?thesis by simp
qed

theorem fix_file_without_usage_witness:
  "fix_file ''app/api/payouts/status/route.ts'' ''user''
     \<lparr>fs = [''app/api/payouts/status/route.ts'' \<mapsto> File (legacy_import @ ''\<newline>export {}'')],
      console = []\<rparr> =
   (Inr True,
    \<lparr>fs = [''app/api/payouts/status/route.ts'' \<mapsto> File (user_import @ ''\<newline>export {}'')],
     console = [Fixed ''app/api/payouts/status/route.ts'' ''user'']\<rparr>)"
proof -
  have 1: "contains legacy_import (legacy_import @ ''\<newline>export {}'')" by code_simp
  have 2: "re_search first_usage_pattern
      (str_replace legacy_import user_import (legacy_import @ ''\<newline>export {}'')) = None"
    by code_simp
  have 3: "str_replace legacy_import user_import (legacy_import @ ''\<newline>export {}'') =
      user_import @ ''\<newline>export {}''"
    by code_simp
  from fix_file_without_usage
    [of "\<lparr>fs = [''app/api/payouts/status/route.ts'' \<mapsto>
            File (legacy_import @ ''\<newline>export {}'')], console = []\<rparr>"
      "''app/api/payouts/status/route.ts''" "legacy_import @ ''\<newline>export {}''"
      "''user''" user_import, OF _ 1 _ 2]
  show ?thesis by (simp add: 3)
qed

text \<open>
  C6. When a first call has rewritten the file, its text no longer contains the legacy
  import: the first call returned \<open>True\<close>, and a second call (in any mode) prints the
  ``already fixed'' line, returns \<open>True\<close> and leaves the file system as the first call
  left it.
\<close>

theorem second_run_already_fixed:
  assumes "fs st filepath = Some (File content)"
    and "fix_file filepath auth_type st = (r, st')"
    and "fs st' filepath \<noteq> fs st filepath"
  shows "r = Inr True \<and>
     fix_file filepath auth_type2 st' =
       (Inr True, st'\<lparr>console := console st' @ [AlreadyFixed filepath]\<rparr>)"
proof -
  from fix_file_result [OF assms] have a: "auth_type = ''user'' \<or> auth_type = ''service''"
    and r: "r = Inr True"
    and st': "st' = st\<lparr>fs := (fs st)(filepath \<mapsto> File (rewrite auth_type content)),
        console := console st @ [Fixed filepath auth_type]\<rparr>"
    by blast+
  have f: "fs st' filepath = Some (File (rewrite auth_type content))" using st' by simp
  have "\<not> contains legacy_import (rewrite auth_type content)"
    using rewrite_no_legacy [OF a] by (simp add: contains_sublist)
  with f r show ?thesis by (simp add: fix_file_def print_def)
qed

theorem second_run_already_fixed_witness:
  "fix_file ''app/api/metrics/route.ts'' ''service''
     \<lparr>fs = [''app/api/metrics/route.ts'' \<mapsto> File (service_import @ ''\<newline>export {}'')],
      console = [Fixed ''app/api/metrics/route.ts'' ''service'']\<rparr> =
   (Inr True,
    \<lparr>fs = [''app/api/metrics/route.ts'' \<mapsto> File (service_import @ ''\<newline>export {}'')],
     console = [Fixed ''app/api/metrics/route.ts'' ''service'',
                AlreadyFixed ''app/api/metrics/route.ts'']\<rparr>)"
proof -
  have 1: "contains legacy_import (legacy_import @ ''\<newline>export {}'')" by code_simp
  have 2: "rewrite ''service'' (legacy_import @ ''\<newline>export {}'') =
      service_import @ ''\<newline>export {}''"
    by code_simp
  have 3: "service_import @ ''\<newline>export {}'' \<noteq> legacy_import @ ''\<newline>export {}''"
    by code_simp
  have 4: "fix_file ''app/api/metrics/route.ts'' ''service''
      \<lparr>fs = [''app/api/metrics/route.ts'' \<mapsto> File (legacy_import @ ''\<newline>export {}'')],
       console = []\<rparr> =
     (Inr True,
      \<lparr>fs = [''app/api/metrics/route.ts'' \<mapsto> File (service_import @ ''\<newline>export {}'')],
       console = [Fixed ''app/api/metrics/route.ts'' ''service'']\<rparr>)"
    using 1 2 3 by (simp add: fix_file_def print_def)
  from second_run_already_fixed [OF _ 4, of "legacy_import @ ''\<newline>export {}''" "''service''"]
  show ?thesis using 3 by simp
qed




section \<open>The whole run\<close>








end
